theory Spec2Isabelle
  imports Complex_Main "HOL-Library.Sublist" "HOL-Library.AList"
begin

section \<open>Values\<close>

text \<open>
  \<^verbatim>\<open>app.js\<close> keeps everything in the browser's \<^verbatim>\<open>localStorage\<close>: the key
  \<^verbatim>\<open>users\<close> holds the JSON text of an array of account objects, the key
  \<^verbatim>\<open>currentUser\<close> the e-mail of the signed-in account.

  A JavaScript string is modelled by the \<^typ>\<open>string\<close> of its UTF-8 bytes (the encoding
  of the source file itself), a number by the rational value of its decimal notation
  (rounding to binary64 is not modelled; integers below \<open>2 ^ 53\<close> are exact), and the values
  that \<^verbatim>\<open>JSON.parse\<close> builds by the datatype \<open>json\<close>. An object is the list of its
  members in insertion order. The value \<^verbatim>\<open>undefined\<close> is \<^term>\<open>None\<close> of
  \<open>json option\<close>.
\<close>

datatype json = JNull | JBool bool | JNum rat | JStr string
  | JArr "json list" | JObj "(string \<times> json) list"

datatype exn = SyntaxError | TypeError

subsection \<open>\<^verbatim>\<open>JSON.parse\<close>\<close>

text \<open>
  The platform's parser, after ECMA-404: insignificant whitespace, the three literals,
  numbers, strings with their escapes, arrays and objects. \<^term>\<open>None\<close> is the
  \<^verbatim>\<open>SyntaxError\<close> that \<^verbatim>\<open>JSON.parse\<close> throws. A member name given twice keeps its
  first position and its last value, as \<^verbatim>\<open>JSON.parse\<close> does.
\<close>

definition json_ws :: "char \<Rightarrow> bool" where
  "json_ws c = (c = CHR '' '' \<or> c = CHR 0x09 \<or> c = CHR 0x0A \<or> c = CHR 0x0D)"

definition skip_ws :: "string \<Rightarrow> string" where
  "skip_ws s = dropWhile json_ws s"

definition is_digit :: "char \<Rightarrow> bool" where
  "is_digit c = (48 \<le> (of_char c :: nat) \<and> (of_char c :: nat) \<le> 57)"

definition digits_val :: "string \<Rightarrow> nat" where
  "digits_val ds = foldl (\<lambda>a c. 10 * a + (of_char c - 48)) 0 ds"

definition hex_val :: "char \<Rightarrow> nat option" where
  "hex_val c = (let n = (of_char c :: nat) in
     if 48 \<le> n \<and> n \<le> 57 then Some (n - 48)
     else if 65 \<le> n \<and> n \<le> 70 then Some (n - 55)
     else if 97 \<le> n \<and> n \<le> 102 then Some (n - 87)
     else None)"

definition hex4 :: "char \<Rightarrow> char \<Rightarrow> char \<Rightarrow> char \<Rightarrow> nat option" where
  "hex4 a b c d = (case (hex_val a, hex_val b, hex_val c, hex_val d) of
       (Some w, Some x, Some y, Some z) \<Rightarrow> Some (((w * 16 + x) * 16 + y) * 16 + z)
     | _ \<Rightarrow> None)"

text \<open>The UTF-8 bytes of a code point (of a lone surrogate too, as its three bytes).\<close>

definition utf8 :: "nat \<Rightarrow> string" where
  "utf8 n = (if n < 0x80 then [char_of n]
     else if n < 0x800 then [char_of (0xC0 + n div 64), char_of (0x80 + n mod 64)]
     else if n < 0x10000 then
       [char_of (0xE0 + n div 4096), char_of (0x80 + n div 64 mod 64), char_of (0x80 + n mod 64)]
     else [char_of (0xF0 + n div 262144), char_of (0x80 + n div 4096 mod 64),
           char_of (0x80 + n div 64 mod 64), char_of (0x80 + n mod 64)])"

definition unescape :: "char \<Rightarrow> char option" where
  "unescape e = (if e = CHR 0x22 \<or> e = CHR 0x5C \<or> e = CHR ''/'' then Some e
     else if e = CHR ''b'' then Some (CHR 0x08)
     else if e = CHR ''f'' then Some (CHR 0x0C)
     else if e = CHR ''n'' then Some (CHR 0x0A)
     else if e = CHR ''r'' then Some (CHR 0x0D)
     else if e = CHR ''t'' then Some (CHR 0x09)
     else None)"

text \<open>A \<^verbatim>\<open>\uDC00\<close>..\<^verbatim>\<open>\uDFFF\<close> escape at the head of the text: the second half of a pair.\<close>

definition low_surrogate :: "string \<Rightarrow> nat option" where
  "low_surrogate s = (case s of
       b # u # h1 # h2 # h3 # h4 # _ \<Rightarrow>
         if b = CHR 0x5C \<and> u = CHR ''u'' then
           (case hex4 h1 h2 h3 h4 of
              Some n \<Rightarrow> if 0xDC00 \<le> n \<and> n < 0xE000 then Some n else None
            | None \<Rightarrow> None)
         else None
     | _ \<Rightarrow> None)"

text \<open>The characters of a string after its opening quote, up to the closing one.\<close>

fun parse_chars :: "string \<Rightarrow> (string \<times> string) option" where
  "parse_chars [] = None"
| "parse_chars (c # cs) =
     (if c = CHR 0x22 then Some ([], cs)
      else if c = CHR 0x5C then
        (case cs of
           [] \<Rightarrow> None
         | e # r \<Rightarrow>
             if e = CHR ''u'' then
               (case r of
                  h1 # h2 # h3 # h4 # r' \<Rightarrow>
                    (case hex4 h1 h2 h3 h4 of
                       None \<Rightarrow> None
                     | Some n \<Rightarrow>
                         (case (if 0xD800 \<le> n \<and> n < 0xDC00 then low_surrogate r' else None) of
                            Some lo \<Rightarrow>
                              map_option
                                (\<lambda>(s, t). (utf8 (0x10000 + (n - 0xD800) * 1024 + (lo - 0xDC00)) @ s, t))
                                (parse_chars (drop 6 r'))
                          | None \<Rightarrow> map_option (\<lambda>(s, t). (utf8 n @ s, t)) (parse_chars r')))
                | _ \<Rightarrow> None)
             else
               (case unescape e of
                  None \<Rightarrow> None
                | Some d \<Rightarrow> map_option (\<lambda>(s, t). (d # s, t)) (parse_chars r)))
      else if (of_char c :: nat) < 0x20 then None
      else map_option (\<lambda>(s, t). (c # s, t)) (parse_chars cs))"

text \<open>
  A number: an optional minus, an integer part without a leading zero, an optional
  fraction and an optional exponent.
\<close>

definition parse_frac :: "string \<Rightarrow> (string \<times> string) option" where
  "parse_frac s = (case s of
       [] \<Rightarrow> Some ([], s)
     | c # r \<Rightarrow>
         if c = CHR ''.'' then
           (if takeWhile is_digit r = [] then None
            else Some (takeWhile is_digit r, dropWhile is_digit r))
         else Some ([], s))"

definition parse_exp :: "string \<Rightarrow> (int \<times> string) option" where
  "parse_exp s = (case s of
       [] \<Rightarrow> Some (0, s)
     | c # r \<Rightarrow>
         if c = CHR ''e'' \<or> c = CHR ''E'' then
           (let neg = (case r of [] \<Rightarrow> False | g # _ \<Rightarrow> g = CHR ''-'');
                r' = (case r of [] \<Rightarrow> r | g # t \<Rightarrow> if g = CHR ''-'' \<or> g = CHR ''+'' then t else r)
            in if takeWhile is_digit r' = [] then None
               else Some ((if neg then - 1 else 1) * int (digits_val (takeWhile is_digit r')),
                          dropWhile is_digit r'))
         else Some (0, s))"

definition pow10 :: "int \<Rightarrow> rat" where
  "pow10 e = (if 0 \<le> e then 10 ^ nat e else 1 / 10 ^ nat (- e))"

definition parse_number :: "string \<Rightarrow> (rat \<times> string) option" where
  "parse_number s =
     (let neg = (case s of [] \<Rightarrow> False | c # _ \<Rightarrow> c = CHR ''-'');
          s1 = (if neg then tl s else s);
          ds = takeWhile is_digit s1
      in if ds = [] \<or> (1 < length ds \<and> hd ds = CHR ''0'') then None
         else
           (case parse_frac (dropWhile is_digit s1) of
              None \<Rightarrow> None
            | Some (fs, s2) \<Rightarrow>
                (case parse_exp s2 of
                   None \<Rightarrow> None
                 | Some (e, s3) \<Rightarrow>
                     Some ((if neg then - 1 else 1)
                             * (of_nat (digits_val (ds @ fs)) / 10 ^ length fs) * pow10 e, s3))))"

text \<open>
  Values, array elements and object members. The first argument bounds the number of
  nested calls; the bound that \<open>JSON_parse\<close> gives suffices for every text
  (\<open>JSON_parse_accepts\<close> below).
\<close>

fun parse_value :: "nat \<Rightarrow> string \<Rightarrow> (json \<times> string) option"
  and parse_elements :: "nat \<Rightarrow> string \<Rightarrow> (json list \<times> string) option"
  and parse_members :: "nat \<Rightarrow> (string \<times> json) list \<Rightarrow> string
        \<Rightarrow> ((string \<times> json) list \<times> string) option"
where
  "parse_value 0 s = None"
| "parse_value (Suc n) s =
     (case skip_ws s of
        [] \<Rightarrow> None
      | c # cs \<Rightarrow>
          if c = CHR ''{'' then
            (case skip_ws cs of
               [] \<Rightarrow> None
             | d # r \<Rightarrow>
                 if d = CHR ''}'' then Some (JObj [], r)
                 else map_option (\<lambda>(ms, t). (JObj ms, t)) (parse_members n [] cs))
          else if c = CHR ''['' then
            (case skip_ws cs of
               [] \<Rightarrow> None
             | d # r \<Rightarrow>
                 if d = CHR '']'' then Some (JArr [], r)
                 else map_option (\<lambda>(vs, t). (JArr vs, t)) (parse_elements n cs))
          else if c = CHR 0x22 then map_option (\<lambda>(x, t). (JStr x, t)) (parse_chars cs)
          else if c = CHR ''-'' \<or> is_digit c then
            map_option (\<lambda>(x, t). (JNum x, t)) (parse_number (c # cs))
          else if prefix ''true'' (c # cs) then Some (JBool True, drop 4 (c # cs))
          else if prefix ''false'' (c # cs) then Some (JBool False, drop 5 (c # cs))
          else if prefix ''null'' (c # cs) then Some (JNull, drop 4 (c # cs))
          else None)"
| "parse_elements 0 s = None"
| "parse_elements (Suc n) s =
     (case parse_value n s of
        None \<Rightarrow> None
      | Some (v, r) \<Rightarrow>
          (case skip_ws r of
             [] \<Rightarrow> None
           | c # r' \<Rightarrow>
               if c = CHR '','' then map_option (\<lambda>(vs, t). (v # vs, t)) (parse_elements n r')
               else if c = CHR '']'' then Some ([v], r')
               else None))"
| "parse_members 0 acc s = None"
| "parse_members (Suc n) acc s =
     (case skip_ws s of
        [] \<Rightarrow> None
      | q # s1 \<Rightarrow>
          if q \<noteq> CHR 0x22 then None
          else
            (case parse_chars s1 of
               None \<Rightarrow> None
             | Some (k, s2) \<Rightarrow>
                 (case skip_ws s2 of
                    [] \<Rightarrow> None
                  | c # s3 \<Rightarrow>
                      if c \<noteq> CHR '':'' then None
                      else
                        (case parse_value n s3 of
                           None \<Rightarrow> None
                         | Some (v, s4) \<Rightarrow>
                             (case skip_ws s4 of
                                [] \<Rightarrow> None
                              | d # s5 \<Rightarrow>
                                  if d = CHR '','' then parse_members n (AList.update k v acc) s5
                                  else if d = CHR ''}'' then Some (AList.update k v acc, s5)
                                  else None)))))"

definition JSON_parse :: "string \<Rightarrow> exn + json" where
  "JSON_parse s =
     (case parse_value (2 * length s + 2) s of
        None \<Rightarrow> Inl SyntaxError
      | Some (v, r) \<Rightarrow> if skip_ws r = [] then Inr v else Inl SyntaxError)"

text \<open>
  Notions for the proof that the bound of \<open>JSON_parse\<close> suffices: a bound is
  \<open>enough\<close> when it is twice the number of characters read, and a parse that
  succeeds reads at least one character and succeeds alike with every bound that is
  enough.
\<close>

definition enough :: "nat \<Rightarrow> string \<Rightarrow> string \<Rightarrow> bool" where
  "enough k s r = (2 * (length s - length r) \<le> k)"

definition value_ok :: "nat \<Rightarrow> string \<Rightarrow> bool" where
  "value_ok n s = (\<forall>v r. parse_value n s = Some (v, r) \<longrightarrow>
     length r < length s \<and> (\<forall>k. enough k s r \<longrightarrow> parse_value k s = Some (v, r)))"

definition elements_ok :: "nat \<Rightarrow> string \<Rightarrow> bool" where
  "elements_ok n s = (\<forall>vs r. parse_elements n s = Some (vs, r) \<longrightarrow>
     length r < length s \<and> (\<forall>k. enough (Suc k) s r \<longrightarrow> parse_elements k s = Some (vs, r)))"

definition members_ok :: "nat \<Rightarrow> (string \<times> json) list \<Rightarrow> string \<Rightarrow> bool" where
  "members_ok n acc s = (\<forall>ms r. parse_members n acc s = Some (ms, r) \<longrightarrow>
     length r < length s \<and> (\<forall>k. enough (Suc k) s r \<longrightarrow> parse_members k acc s = Some (ms, r)))"

subsection \<open>\<^verbatim>\<open>JSON.stringify\<close>\<close>

text \<open>
  The platform's printer, without indentation: the text \<^verbatim>\<open>JSON.stringify\<close> gives for
  strings, literals, arrays, objects and for integers below \<open>10 ^ 21\<close> in magnitude. A
  number with a fraction is printed with the digits of its decimal expansion.
\<close>

definition hex_digit :: "nat \<Rightarrow> char" where
  "hex_digit n = (if n < 10 then char_of (48 + n) else char_of (87 + n))"

definition escape :: "char \<Rightarrow> string" where
  "escape c =
     (if c = CHR 0x22 then [CHR 0x5C, CHR 0x22]
      else if c = CHR 0x5C then [CHR 0x5C, CHR 0x5C]
      else if c = CHR 0x08 then [CHR 0x5C, CHR ''b'']
      else if c = CHR 0x0C then [CHR 0x5C, CHR ''f'']
      else if c = CHR 0x0A then [CHR 0x5C, CHR ''n'']
      else if c = CHR 0x0D then [CHR 0x5C, CHR ''r'']
      else if c = CHR 0x09 then [CHR 0x5C, CHR ''t'']
      else if (of_char c :: nat) < 0x20 then
        [CHR 0x5C, CHR ''u'', CHR ''0'', CHR ''0'',
         hex_digit (of_char c div 16), hex_digit (of_char c mod 16)]
      else [c])"

definition quote :: "string \<Rightarrow> string" where
  "quote s = CHR 0x22 # concat (map escape s) @ [CHR 0x22]"

fun show_nat :: "nat \<Rightarrow> string" where
  "show_nat n =
     (if n < 10 then [char_of (48 + n)] else show_nat (n div 10) @ [char_of (48 + n mod 10)])"

declare show_nat.simps [simp del]

fun frac_digits :: "nat \<Rightarrow> rat \<Rightarrow> string" where
  "frac_digits 0 r = []"
| "frac_digits (Suc n) r =
     (if r = 0 then []
      else char_of (48 + nat \<lfloor>r * 10\<rfloor>) # frac_digits n (r * 10 - of_int \<lfloor>r * 10\<rfloor>))"

definition show_num :: "rat \<Rightarrow> string" where
  "show_num q =
     (let a = \<bar>q\<bar>; i = \<lfloor>a\<rfloor>
      in (if q < 0 then ''-'' else [])
           @ show_nat (nat i)
           @ (if a = of_int i then []
              else ''.'' @ frac_digits (nat (snd (quotient_of a))) (a - of_int i)))"

fun commas :: "string list \<Rightarrow> string" where
  "commas [] = []"
| "commas [x] = x"
| "commas (x # y # zs) = x @ '','' @ commas (y # zs)"

fun JSON_stringify :: "json \<Rightarrow> string" where
  "JSON_stringify JNull = ''null''"
| "JSON_stringify (JBool b) = (if b then ''true'' else ''false'')"
| "JSON_stringify (JNum q) = show_num q"
| "JSON_stringify (JStr s) = quote s"
| "JSON_stringify (JArr vs) = ''['' @ commas (map JSON_stringify vs) @ '']''"
| "JSON_stringify (JObj ms) =
     ''{'' @ commas (map (\<lambda>m. quote (fst m) @ '':'' @ JSON_stringify (snd m)) ms) @ ''}''"

subsection \<open>Values that are printed and parsed back unchanged\<close>

text \<open>
  \<open>canonical\<close>: the numbers are integers and no object has a member name twice.
  \<open>need\<close> bounds the nested calls that parsing the printed value takes.
  \<open>stop\<close> is what may follow a printed value inside a text, and \<open>value_start\<close>
  what a printed value starts with.
\<close>

fun canonical :: "json \<Rightarrow> bool" where
  "canonical (JNum q) = (q = of_int \<lfloor>q\<rfloor>)"
| "canonical (JArr vs) = list_all canonical vs"
| "canonical (JObj ms) = (distinct (map fst ms) \<and> list_all (\<lambda>m. canonical (snd m)) ms)"
| "canonical v = True"

fun need :: "json \<Rightarrow> nat" where
  "need (JArr vs) = Suc (sum_list (map need vs) + length vs)"
| "need (JObj ms) = Suc (sum_list (map (\<lambda>m. need (snd m)) ms) + length ms)"
| "need v = 1"

definition stop :: "string \<Rightarrow> bool" where
  "stop r = (case r of [] \<Rightarrow> True | c # _ \<Rightarrow> c = CHR '','' \<or> c = CHR '']'' \<or> c = CHR ''}'')"

definition value_start :: "char \<Rightarrow> bool" where
  "value_start c = (\<not> json_ws c \<and> c \<noteq> CHR '']'' \<and> c \<noteq> CHR ''}'')"

abbreviation member_text :: "string \<times> json \<Rightarrow> string" where
  "member_text m \<equiv> quote (fst m) @ '':'' @ JSON_stringify (snd m)"

section \<open>Strings\<close>

text \<open>
  \<^verbatim>\<open>String.prototype.trim\<close> removes the white space and line terminators of
  ECMAScript from both ends; \<open>white_space\<close> lists them as UTF-8 byte sequences.
  \<^verbatim>\<open>toLowerCase\<close> is modelled on the letters \<^verbatim>\<open>A\<close>..\<^verbatim>\<open>Z\<close>; the case mapping of
  letters outside ASCII is not modelled.
\<close>

definition white_space :: "string list" where
  "white_space =
     [[CHR 0x09], [CHR 0x0A], [CHR 0x0B], [CHR 0x0C], [CHR 0x0D], [CHR 0x20],
      [CHR 0xC2, CHR 0xA0], [CHR 0xE1, CHR 0x9A, CHR 0x80],
      [CHR 0xE2, CHR 0x80, CHR 0x80], [CHR 0xE2, CHR 0x80, CHR 0x81],
      [CHR 0xE2, CHR 0x80, CHR 0x82], [CHR 0xE2, CHR 0x80, CHR 0x83],
      [CHR 0xE2, CHR 0x80, CHR 0x84], [CHR 0xE2, CHR 0x80, CHR 0x85],
      [CHR 0xE2, CHR 0x80, CHR 0x86], [CHR 0xE2, CHR 0x80, CHR 0x87],
      [CHR 0xE2, CHR 0x80, CHR 0x88], [CHR 0xE2, CHR 0x80, CHR 0x89],
      [CHR 0xE2, CHR 0x80, CHR 0x8A], [CHR 0xE2, CHR 0x80, CHR 0xA8],
      [CHR 0xE2, CHR 0x80, CHR 0xA9], [CHR 0xE2, CHR 0x80, CHR 0xAF],
      [CHR 0xE2, CHR 0x81, CHR 0x9F], [CHR 0xE3, CHR 0x80, CHR 0x80],
      [CHR 0xEF, CHR 0xBB, CHR 0xBF]]"

function strip :: "string list \<Rightarrow> string \<Rightarrow> string" where
  "strip ps s =
     (case List.find (\<lambda>p. p \<noteq> [] \<and> prefix p s) ps of
        None \<Rightarrow> s
      | Some p \<Rightarrow> strip ps (drop (length p) s))"
  by pat_completeness auto
termination
  by (relation "measure (\<lambda>(ps, s). length s)") (auto simp: find_Some_iff prefix_def)

declare strip.simps [simp del]

definition trimStart :: "string \<Rightarrow> string" where
  "trimStart s = strip white_space s"

definition trimEnd :: "string \<Rightarrow> string" where
  "trimEnd s = rev (strip (map rev white_space) (rev s))"

definition trim :: "string \<Rightarrow> string" where
  "trim s = trimEnd (trimStart s)"

definition lower :: "char \<Rightarrow> char" where
  "lower c =
     (if 65 \<le> (of_char c :: nat) \<and> (of_char c :: nat) \<le> 90 then char_of (of_char c + 32 :: nat)
      else c)"

definition toLowerCase :: "string \<Rightarrow> string" where
  "toLowerCase s = map lower s"

section \<open>Storage\<close>

text \<open>
  What the handlers read and write outside their arguments: \<^verbatim>\<open>localStorage\<close>, a list
  of key and value pairs, and the lines written to the console.
\<close>

record world =
  localStorage :: "(string \<times> string) list"
  console :: "string list"

definition getItem :: "string \<Rightarrow> world \<Rightarrow> string option" where
  "getItem k w = map_of (localStorage w) k"

definition setItem :: "string \<Rightarrow> string \<Rightarrow> world \<Rightarrow> world" where
  "setItem k v w = w\<lparr>localStorage := AList.update k v (localStorage w)\<rparr>"


definition console_error :: "string \<Rightarrow> world \<Rightarrow> world" where
  "console_error msg w = w\<lparr>console := console w @ [msg]\<rparr>"

text \<open>
  \<^verbatim>\<open>getUsers\<close>: the \<^verbatim>\<open>try\<close> block is the inner \<open>case\<close>, where an absent item
  (\<^verbatim>\<open>null\<close>) and the empty string are the falsy values of \<^verbatim>\<open>data\<close>; the
  \<^verbatim>\<open>catch\<close> block is the branch \<open>Inl\<close> of the outer one.
\<close>

definition getUsers :: "world \<Rightarrow> exn + json \<times> world" where
  "getUsers w =
     (let data = getItem ''users'' w in
      case (case data of
              None \<Rightarrow> Inr (JArr [])
            | Some d \<Rightarrow> if d \<noteq> [] then JSON_parse d else Inr (JArr []))
      of
        Inr v \<Rightarrow> Inr (v, w)
      | Inl e \<Rightarrow> Inr (JArr [], console_error ''Error parsing users from localStorage'' w))"

definition setUsers :: "json \<Rightarrow> world \<Rightarrow> world" where
  "setUsers users w = setItem ''users'' (JSON_stringify users) w"

definition getCurrentUserEmail :: "world \<Rightarrow> string option" where
  "getCurrentUserEmail w = getItem ''currentUser'' w"

definition setCurrentUserEmail :: "string \<Rightarrow> world \<Rightarrow> world" where
  "setCurrentUserEmail email w = setItem ''currentUser'' email w"

section \<open>Objects and arrays\<close>

text \<open>
  Reading a property \<^verbatim>\<open>v.k\<close>, for the property names this program reads
  (\<^verbatim>\<open>email\<close>, \<^verbatim>\<open>password\<close>, \<^verbatim>\<open>fund\<close>, \<^verbatim>\<open>pet\<close>, \<^verbatim>\<open>name\<close>,
  \<^verbatim>\<open>description\<close>, \<^verbatim>\<open>photos\<close>, \<^verbatim>\<open>data\<close>): \<^verbatim>\<open>null\<close> throws, an object
  gives its member or \<^verbatim>\<open>undefined\<close>, and no other value has such a property.
\<close>

fun get_prop :: "json \<Rightarrow> string \<Rightarrow> exn + json option" where
  "get_prop JNull k = Inl TypeError"
| "get_prop (JObj ms) k = Inr (map_of ms k)"
| "get_prop v k = Inr None"

fun truthy :: "json option \<Rightarrow> bool" where
  "truthy None = False"
| "truthy (Some JNull) = False"
| "truthy (Some (JBool b)) = b"
| "truthy (Some (JNum q)) = (q \<noteq> 0)"
| "truthy (Some (JStr s)) = (s \<noteq> [])"
| "truthy (Some v) = True"

text \<open>The callback \<^verbatim>\<open>u => u.email === email\<close>.\<close>

definition email_is :: "string \<Rightarrow> json \<Rightarrow> exn + bool" where
  "email_is email u =
     (case get_prop u ''email'' of Inl e \<Rightarrow> Inl e | Inr v \<Rightarrow> Inr (v = Some (JStr email)))"

text \<open>
  \<^verbatim>\<open>Array.prototype.find\<close>, \<^verbatim>\<open>some\<close> and \<^verbatim>\<open>findIndex\<close> over the elements of an
  array; an exception of the callback ends the scan. \<^verbatim>\<open>findIndex\<close> gives
  \<^term>\<open>None\<close> for \<^verbatim>\<open>-1\<close>.
\<close>

fun Array_find :: "(json \<Rightarrow> exn + bool) \<Rightarrow> json list \<Rightarrow> exn + json option" where
  "Array_find p [] = Inr None"
| "Array_find p (x # xs) =
     (case p x of Inl e \<Rightarrow> Inl e | Inr b \<Rightarrow> if b then Inr (Some x) else Array_find p xs)"

fun Array_some :: "(json \<Rightarrow> exn + bool) \<Rightarrow> json list \<Rightarrow> exn + bool" where
  "Array_some p [] = Inr False"
| "Array_some p (x # xs) =
     (case p x of Inl e \<Rightarrow> Inl e | Inr b \<Rightarrow> if b then Inr True else Array_some p xs)"

fun Array_findIndex :: "(json \<Rightarrow> exn + bool) \<Rightarrow> json list \<Rightarrow> exn + nat option" where
  "Array_findIndex p [] = Inr None"
| "Array_findIndex p (x # xs) =
     (case p x of
        Inl e \<Rightarrow> Inl e
      | Inr b \<Rightarrow>
          if b then Inr (Some 0)
          else (case Array_findIndex p xs of
                  Inl e \<Rightarrow> Inl e
                | Inr None \<Rightarrow> Inr None
                | Inr (Some i) \<Rightarrow> Inr (Some (Suc i))))"

text \<open>
  \<^verbatim>\<open>findUser\<close>. A value that is not an array has no method \<^verbatim>\<open>find\<close>, and the call
  throws.
\<close>

definition findUser :: "string \<Rightarrow> world \<Rightarrow> exn + json option \<times> world" where
  "findUser email w =
     (case getUsers w of
        Inl e \<Rightarrow> Inl e
      | Inr (users, w1) \<Rightarrow>
          (case users of
             JArr us \<Rightarrow>
               (case Array_find (email_is email) us of
                  Inl e \<Rightarrow> Inl e
                | Inr user \<Rightarrow> Inr (user, w1))
           | _ \<Rightarrow> Inl TypeError))"

section \<open>Sign-up, login, logout\<close>

text \<open>
  The fixed texts a handler writes into its error element, and what a handler leaves
  behind: an error text shown, a navigation (the error element cleared), or an
  exception that nothing catches (the error element cleared, no navigation).
\<close>

datatype message =
    FillAllFields \<comment> \<open>\<^verbatim>\<open>Veuillez remplir tous les champs.\<close>\<close>
  | PasswordsDiffer \<comment> \<open>\<^verbatim>\<open>Les mots de passe ne correspondent pas.\<close>\<close>
  | AccountExists \<comment> \<open>\<^verbatim>\<open>Un compte avec cet e-mail existe deja.\<close>\<close>
  | InvalidCredentials \<comment> \<open>\<^verbatim>\<open>Identifiants invalides.\<close>\<close>
  | NameAndDescription \<comment> \<open>\<^verbatim>\<open>Veuillez indiquer le nom et la description du chien.\<close>\<close>

datatype outcome = Shown message | Navigate string | Saved json | Uncaught exn

text \<open>The object literal of \<^verbatim>\<open>handleSignup\<close>.\<close>

definition newUser :: "string \<Rightarrow> string \<Rightarrow> json" where
  "newUser email password =
     JObj [(''email'', JStr email), (''password'', JStr password),
           (''fund'', JNum 4), (''pet'', JNull)]"

definition handleSignup :: "string \<Rightarrow> string \<Rightarrow> string \<Rightarrow> world \<Rightarrow> outcome \<times> world" where
  "handleSignup signup_email password confirm w =
     (let email = toLowerCase (trim signup_email) in
      if email = [] \<or> password = [] \<or> confirm = [] then (Shown FillAllFields, w)
      else if password \<noteq> confirm then (Shown PasswordsDiffer, w)
      else
        (case getUsers w of
           Inl e \<Rightarrow> (Uncaught e, w)
         | Inr (users, w1) \<Rightarrow>
             (case users of
                JArr us \<Rightarrow>
                  (case Array_some (email_is email) us of
                     Inl e \<Rightarrow> (Uncaught e, w1)
                   | Inr True \<Rightarrow> (Shown AccountExists, w1)
                   | Inr False \<Rightarrow>
                       (Navigate ''dashboard.html'',
                        setCurrentUserEmail email
                          (setUsers (JArr (us @ [newUser email password])) w1)))
              | _ \<Rightarrow> (Uncaught TypeError, w1))))"

definition handleLogin :: "string \<Rightarrow> string \<Rightarrow> world \<Rightarrow> outcome \<times> world" where
  "handleLogin login_email password w =
     (let email = toLowerCase (trim login_email) in
      case findUser email w of
        Inl e \<Rightarrow> (Uncaught e, w)
      | Inr (user, w1) \<Rightarrow>
          if \<not> truthy user then (Shown InvalidCredentials, w1)
          else
            (case get_prop (the user) ''password'' of
               Inl e \<Rightarrow> (Uncaught e, w1)
             | Inr p \<Rightarrow>
                 if p \<noteq> Some (JStr password) then (Shown InvalidCredentials, w1)
                 else (Navigate ''dashboard.html'', setCurrentUserEmail email w1)))"


section \<open>The dashboard: saving a profile\<close>

text \<open>
  \<^verbatim>\<open>a === b\<close> between a property of an element just parsed and a property of an
  object read earlier: primitive values compare by value, and two arrays or objects are
  never the same reference.
\<close>

fun strict_eq :: "json option \<Rightarrow> json option \<Rightarrow> bool" where
  "strict_eq None None = True"
| "strict_eq (Some JNull) (Some JNull) = True"
| "strict_eq (Some (JBool a)) (Some (JBool b)) = (a = b)"
| "strict_eq (Some (JNum a)) (Some (JNum b)) = (a = b)"
| "strict_eq (Some (JStr a)) (Some (JStr b)) = (a = b)"
| "strict_eq a b = False"

text \<open>The callback \<^verbatim>\<open>u => u.email === user.email\<close>.\<close>

definition same_email :: "json \<Rightarrow> json \<Rightarrow> exn + bool" where
  "same_email user u =
     (case get_prop u ''email'' of
        Inl e \<Rightarrow> Inl e
      | Inr a \<Rightarrow>
          (case get_prop user ''email'' of
             Inl e \<Rightarrow> Inl e
           | Inr b \<Rightarrow> Inr (strict_eq a b)))"

text \<open>
  The assignment \<^verbatim>\<open>x.k = v\<close>, where \<^verbatim>\<open>x\<close> is \<^verbatim>\<open>users[idx]\<close>: it throws on
  \<^verbatim>\<open>undefined\<close> (the index \<^verbatim>\<open>-1\<close>) and on \<^verbatim>\<open>null\<close>; an object takes the
  member, in place when it has one of that name and at its end otherwise; on any other
  value the assignment leaves nothing that \<^verbatim>\<open>JSON.stringify\<close> prints.
\<close>

fun set_prop :: "string \<Rightarrow> json \<Rightarrow> json option \<Rightarrow> exn + json" where
  "set_prop k v None = Inl TypeError"
| "set_prop k v (Some JNull) = Inl TypeError"
| "set_prop k v (Some (JObj ms)) = Inr (JObj (AList.update k v ms))"
| "set_prop k v (Some x) = Inr x"

text \<open>
  A save in flight, the variables the callbacks of \<^verbatim>\<open>savePetInfo\<close> close over:
  \<^verbatim>\<open>user\<close>, \<^verbatim>\<open>name\<close>, \<^verbatim>\<open>desc\<close>, \<^verbatim>\<open>vetObj\<close>, \<^verbatim>\<open>photos\<close> and
  \<^verbatim>\<open>readerTasks\<close>. A reader task is the promise of one \<^verbatim>\<open>FileReader\<close>: what its
  \<^verbatim>\<open>onload\<close> fills, the name of its file, and whether it has resolved.
\<close>

datatype target = Vet | Photo

record save =
  user :: json
  name :: string
  desc :: string
  vetObj :: json
  photos :: "json list"
  readerTasks :: "(target \<times> string \<times> bool) list"

datatype saved = Waiting save | Done outcome

definition file_record :: "string \<Rightarrow> string \<Rightarrow> json" where
  "file_record file_name result = JObj [(''name'', JStr file_name), (''data'', JStr result)]"

definition petObj :: "save \<Rightarrow> json" where
  "petObj sv =
     JObj [(''name'', JStr (name sv)), (''description'', JStr (desc sv)),
           (''vetFile'', vetObj sv), (''photos'', JArr (photos sv))]"

text \<open>
  The callback of \<^verbatim>\<open>Promise.all(readerTasks).then\<close>. \<open>Saved\<close> stands for the two
  calls after \<^verbatim>\<open>setUsers\<close>: \<^verbatim>\<open>displayPetInfo(petObj)\<close> and the reset of the form.
\<close>

definition nth_opt :: "'a list \<Rightarrow> nat option \<Rightarrow> 'a option" where
  "nth_opt xs i = (case i of None \<Rightarrow> None | Some n \<Rightarrow> if n < length xs then Some (xs ! n) else None)"

definition then_callback :: "save \<Rightarrow> world \<Rightarrow> outcome \<times> world" where
  "then_callback sv w =
     (case getUsers w of
        Inl e \<Rightarrow> (Uncaught e, w)
      | Inr (users, w1) \<Rightarrow>
          (case users of
             JArr us \<Rightarrow>
               (case Array_findIndex (same_email (user sv)) us of
                  Inl e \<Rightarrow> (Uncaught e, w1)
                | Inr idx \<Rightarrow>
                    (case set_prop ''pet'' (petObj sv) (nth_opt us idx) of
                       Inl e \<Rightarrow> (Uncaught e, w1)
                     | Inr u \<Rightarrow>
                         (Saved (petObj sv), setUsers (JArr (us[the idx := u])) w1)))
           | _ \<Rightarrow> (Uncaught TypeError, w1)))"

text \<open>
  \<^verbatim>\<open>Promise.all\<close>: once every reader task has resolved (at once, when there is none)
  the callback runs, before any other event is handled.
\<close>

definition settle :: "save \<Rightarrow> world \<Rightarrow> saved \<times> world" where
  "settle sv w =
     (if list_all (\<lambda>t. snd (snd t)) (readerTasks sv)
      then (case then_callback sv w of (out, w1) \<Rightarrow> (Done out, w1))
      else (Waiting sv, w))"

text \<open>
  \<^verbatim>\<open>savePetInfo(user)\<close>, with the values of the two text fields and the names of the
  files selected in the two file inputs. \<open>first_save\<close> is the state when the reads
  have been started: no certificate, no photo, one pending task for the first
  certificate and one for each photo.
\<close>

definition first_save :: "json \<Rightarrow> string \<Rightarrow> string \<Rightarrow> string list \<Rightarrow> string list \<Rightarrow> save" where
  "first_save usr pet_name pet_desc vet_files photo_files =
     \<lparr>user = usr, name = trim pet_name, desc = trim pet_desc, vetObj = JNull, photos = [],
      readerTasks =
        (case vet_files of [] \<Rightarrow> [] | f # _ \<Rightarrow> [(Vet, f, False)])
        @ map (\<lambda>f. (Photo, f, False)) photo_files\<rparr>"

definition savePetInfo ::
  "json \<Rightarrow> string \<Rightarrow> string \<Rightarrow> string list \<Rightarrow> string list \<Rightarrow> world \<Rightarrow> saved \<times> world" where
  "savePetInfo usr pet_name pet_desc vet_files photo_files w =
     (if trim pet_name = [] \<or> trim pet_desc = [] then (Done (Shown NameAndDescription), w)
      else settle (first_save usr pet_name pet_desc vet_files photo_files) w)"

text \<open>
  The handler \<^verbatim>\<open>fr.onload\<close> of reader task \<open>i\<close>, with \<^verbatim>\<open>fr.result\<close>: the record
  of the file is stored and the promise resolves. The event \<open>onload\<close> runs it and
  what \<^verbatim>\<open>Promise.all\<close> does next. A reader fires the event at most once; a read that
  fails fires no event at all, since no \<^verbatim>\<open>onerror\<close> is set, and its promise stays
  pending.
\<close>

definition fr_onload :: "nat \<Rightarrow> string \<Rightarrow> save \<Rightarrow> save" where
  "fr_onload i result sv =
     (case readerTasks sv ! i of
        (Vet, f, _) \<Rightarrow>
          sv\<lparr>vetObj := file_record f result,
             readerTasks := (readerTasks sv)[i := (Vet, f, True)]\<rparr>
      | (Photo, f, _) \<Rightarrow>
          sv\<lparr>photos := photos sv @ [file_record f result],
             readerTasks := (readerTasks sv)[i := (Photo, f, True)]\<rparr>)"

definition onload :: "nat \<Rightarrow> string \<Rightarrow> save \<Rightarrow> world \<Rightarrow> saved \<times> world" where
  "onload i result sv w =
     (if i < length (readerTasks sv) \<and> \<not> snd (snd (readerTasks sv ! i))
      then settle (fr_onload i result sv) w
      else (Waiting sv, w))"

text \<open>A sequence of \<^verbatim>\<open>onload\<close> events, in the order in which the reads complete.\<close>

fun events :: "(nat \<times> string) list \<Rightarrow> saved \<times> world \<Rightarrow> saved \<times> world" where
  "events [] s = s"
| "events ((i, result) # evs) (Waiting sv, w) = events evs (onload i result sv w)"
| "events (ev # evs) (Done out, w) = (Done out, w)"

text \<open>
  Notions for the proofs: the tasks still pending, the handlers of a sequence of events
  without \<^verbatim>\<open>Promise.all\<close>, and what a task reads, whatever its state.
\<close>

definition pending :: "save \<Rightarrow> nat set" where
  "pending sv = {i. i < length (readerTasks sv) \<and> \<not> snd (snd (readerTasks sv ! i))}"

fun loads :: "(nat \<times> string) list \<Rightarrow> save \<Rightarrow> save" where
  "loads [] sv = sv"
| "loads ((i, r) # evs) sv = loads evs (fr_onload i r sv)"


section \<open>The listing\<close>













section \<open>Account collections\<close>

text \<open>
  The structure the program expects under \<^verbatim>\<open>users\<close>: an array of objects with a
  string \<^verbatim>\<open>email\<close>, a string \<^verbatim>\<open>password\<close>, an integer \<^verbatim>\<open>fund\<close> below
  \<open>2 ^ 53\<close> in magnitude (the numbers this model has exactly) and a
  \<^verbatim>\<open>pet\<close> that is \<^verbatim>\<open>null\<close> or a profile; a profile has a string \<^verbatim>\<open>name\<close>, a
  string \<^verbatim>\<open>description\<close>, a \<^verbatim>\<open>vetFile\<close> that is \<^verbatim>\<open>null\<close> or a file record and an
  array \<^verbatim>\<open>photos\<close> of file records, a file record being a \<^verbatim>\<open>name\<close> and a
  \<^verbatim>\<open>data\<close> string.
\<close>

fun is_str :: "json option \<Rightarrow> bool" where
  "is_str (Some (JStr s)) = True"
| "is_str v = False"

fun is_fund :: "json option \<Rightarrow> bool" where
  "is_fund (Some (JNum q)) = (q = of_int \<lfloor>q\<rfloor> \<and> \<bar>q\<bar> < 2 ^ 53)"
| "is_fund v = False"

fun is_file :: "json \<Rightarrow> bool" where
  "is_file (JObj ms) = (is_str (map_of ms ''name'') \<and> is_str (map_of ms ''data''))"
| "is_file v = False"

fun is_files :: "json option \<Rightarrow> bool" where
  "is_files (Some (JArr fs)) = list_all is_file fs"
| "is_files v = False"

fun is_pet :: "json \<Rightarrow> bool" where
  "is_pet (JObj ms) =
     (is_str (map_of ms ''name'') \<and> is_str (map_of ms ''description'')
      \<and> (case map_of ms ''vetFile'' of None \<Rightarrow> False | Some f \<Rightarrow> f = JNull \<or> is_file f)
      \<and> is_files (map_of ms ''photos''))"
| "is_pet v = False"

fun is_account :: "json \<Rightarrow> bool" where
  "is_account (JObj ms) =
     (is_str (map_of ms ''email'') \<and> is_str (map_of ms ''password'')
      \<and> is_fund (map_of ms ''fund'')
      \<and> (case map_of ms ''pet'' of None \<Rightarrow> False | Some p \<Rightarrow> p = JNull \<or> is_pet p))"
| "is_account v = False"

definition email_of :: "json \<Rightarrow> string option" where
  "email_of u = (case get_prop u ''email'' of Inr (Some (JStr e)) \<Rightarrow> Some e | _ \<Rightarrow> None)"

definition password_of :: "json \<Rightarrow> string option" where
  "password_of u = (case get_prop u ''password'' of Inr (Some (JStr p)) \<Rightarrow> Some p | _ \<Rightarrow> None)"

text \<open>An account collection: accounts with pairwise different identifiers.\<close>

definition accounts :: "json list \<Rightarrow> bool" where
  "accounts us = (list_all is_account us \<and> distinct (map email_of us))"

text \<open>
  The listing as the specification words it: an account has a profile when its
  \<^verbatim>\<open>pet\<close> is an object; its card shows the first photo or the fixed placeholder, the
  name, the description, and the fund with two decimals and the currency suffix.
\<close>

fun field :: "json \<Rightarrow> string \<Rightarrow> json option" where
  "field (JObj ms) k = map_of ms k"
| "field v k = None"




section \<open>Reachable worlds\<close>







section \<open>Example data\<close>

text \<open>
  Two stored accounts, the first with a profile that has a certificate and a photo, and
  a completed save for the first account with a new photo and no certificate.
\<close>

definition alice :: json where
  "alice =
     JObj [(''email'', JStr ''a@x.com''), (''password'', JStr ''pw1''), (''fund'', JNum 4),
           (''pet'', JObj [(''name'', JStr ''Old''), (''description'', JStr ''An old text''),
                           (''vetFile'', file_record ''old.pdf'' ''data:O''),
                           (''photos'', JArr [file_record ''old.png'' ''data:P''])])]"

definition bob :: json where
  "bob = newUser ''b@x.com'' ''pw2''"

definition stored :: world where
  "stored =
     \<lparr>localStorage = [(''users'', JSON_stringify (JArr [alice, bob])), (''currentUser'', ''a@x.com'')],
      console = []\<rparr>"

definition new_save :: save where
  "new_save =
     \<lparr>user = alice, name = ''Rex'', desc = ''A good dog'', vetObj = JNull,
      photos = [file_record ''new.png'' ''data:N''], readerTasks = [(Photo, ''new.png'', True)]\<rparr>"

section \<open>The bound of the parser\<close>

text \<open>
  Whatever a parse with some bound accepts, \<open>JSON_parse\<close> accepts with the same
  value: the rejections of \<open>JSON_parse\<close> are syntax errors, never an exhausted
  bound.
\<close>

lemma skip_ws_length: "length (skip_ws s) \<le> length s"
  by (simp add: skip_ws_def length_dropWhile_le)

lemma skip_ws_Cons: "skip_ws s = c # cs \<Longrightarrow> length cs < length s"
  using skip_ws_length [of s] by simp

lemma parse_chars_shorter: "parse_chars s = Some (x, r) \<Longrightarrow> length r < length s"
proof (induction s arbitrary: x r rule: length_induct)
  case (1 s)
  note IH = 1(1) [rule_format]
  from 1(2) obtain c cs where s: "s = c # cs" by (cases s) auto
  show ?case
  proof (cases "c = CHR 0x22")
    case True
    with 1(2) s show ?thesis by auto
  next
    case nq: False
    show ?thesis
    proof (cases "c = CHR 0x5C")
      case False
      with nq 1(2) s obtain x' where p: "parse_chars cs = Some (x', r)"
        by (auto split: if_splits)
      have "length cs < length s" by (simp add: s)
      from IH [OF this p] show ?thesis by (simp add: s)
    next
      case True
      with 1(2) s obtain e t where cs: "cs = e # t"
        by (cases cs) auto
      show ?thesis
      proof (cases "e = CHR ''u''")
        case False
        with True 1(2) s cs obtain x' where p: "parse_chars t = Some (x', r)"
          by (auto split: option.splits)
        have "length t < length s" by (simp add: s cs)
        from IH [OF this p] show ?thesis by (simp add: s cs)
      next
        case u: True
        with True 1(2) s cs obtain h1 h2 h3 h4 t' where t: "t = h1 # h2 # h3 # h4 # t'"
          by (auto split: list.splits)
        with u True 1(2) s cs obtain x' where
          p: "parse_chars t' = Some (x', r) \<or> parse_chars (drop 6 t') = Some (x', r)"
          by (auto split: option.splits if_splits)
        have l: "length t' < length s" "length (drop 6 t') < length s" by (simp_all add: s cs t)
        from p IH [OF l(1)] IH [OF l(2)] have "length r < length t' \<or> length r < length (drop 6 t')"
          by blast
        then show ?thesis by (auto simp: s cs t)
      qed
    qed
  qed
qed

lemma parse_frac_shorter: "parse_frac s = Some (fs, r) \<Longrightarrow> length r \<le> length s"
  by (auto simp: parse_frac_def split: list.splits if_splits
      intro: le_trans [OF length_dropWhile_le])

lemma parse_exp_shorter: "parse_exp s = Some (e, r) \<Longrightarrow> length r \<le> length s"
  by (auto simp: parse_exp_def Let_def split: list.splits if_splits
      intro: le_trans [OF length_dropWhile_le])

lemma dropWhile_shorter: "takeWhile P s \<noteq> [] \<Longrightarrow> length (dropWhile P s) < length s"
  by (cases s) (auto simp: le_imp_less_Suc length_dropWhile_le split: if_splits)

lemma parse_number_shorter: "parse_number s = Some (q, r) \<Longrightarrow> length r < length s"
proof -
  assume a: "parse_number s = Some (q, r)"
  define neg where "neg = (case s of [] \<Rightarrow> False | c # _ \<Rightarrow> c = CHR ''-'')"
  define s1 where "s1 = (if neg then tl s else s)"
  from a have ne: "takeWhile is_digit s1 \<noteq> []"
    by (auto simp: parse_number_def Let_def neg_def s1_def split: if_splits)
  from a obtain fs s2 e where f: "parse_frac (dropWhile is_digit s1) = Some (fs, s2)"
    and e: "parse_exp s2 = Some (e, r)"
    by (auto simp: parse_number_def Let_def neg_def s1_def split: if_splits option.splits)
  have "length s1 \<le> length s" by (simp add: s1_def)
  with dropWhile_shorter [OF ne] parse_frac_shorter [OF f] parse_exp_shorter [OF e]
  show ?thesis by linarith
qed

lemma value_ok_Suc:
  assumes obj: "\<And>c cs d r. skip_ws s = c # cs \<Longrightarrow> c = CHR ''{'' \<Longrightarrow> skip_ws cs = d # r \<Longrightarrow>
        d \<noteq> CHR ''}'' \<Longrightarrow> members_ok n [] cs"
    and arr: "\<And>c cs d r. skip_ws s = c # cs \<Longrightarrow> c \<noteq> CHR ''{'' \<Longrightarrow> c = CHR ''['' \<Longrightarrow>
        skip_ws cs = d # r \<Longrightarrow> d \<noteq> CHR '']'' \<Longrightarrow> elements_ok n cs"
  shows "value_ok (Suc n) s"
  unfolding value_ok_def
proof (intro allI impI)
  fix v r
  assume p: "parse_value (Suc n) s = Some (v, r)"
  then obtain c cs where s: "skip_ws s = c # cs"
    by (cases "skip_ws s") auto
  have lcs: "length cs < length s" using s by (rule skip_ws_Cons)
  have pos: "\<And>k. length r < length s \<Longrightarrow> enough k s r \<Longrightarrow> \<exists>k'. k = Suc k'"
  proof -
    fix k assume "length r < length s" "enough k s r"
    then have "0 < k" by (simp add: enough_def)
    then show "\<exists>k'. k = Suc k'" by (cases k) auto
  qed
  consider (obj) "c = CHR ''{''" | (arr) "c \<noteq> CHR ''{''" "c = CHR ''[''"
    | (str) "c \<noteq> CHR ''{''" "c \<noteq> CHR ''[''" "c = CHR 0x22"
    | (other) "c \<noteq> CHR ''{''" "c \<noteq> CHR ''[''" "c \<noteq> CHR 0x22"
    by blast
  then show "length r < length s \<and> (\<forall>k. enough k s r \<longrightarrow> parse_value k s = Some (v, r))"
  proof cases
    case obj
    with p s obtain d r0 where d: "skip_ws cs = d # r0"
      by (cases "skip_ws cs") auto
    show ?thesis
    proof (cases "d = CHR ''}''")
      case True
      with p s obj d have r: "v = JObj []" "r = r0" by auto
      have l: "length r < length s"
        using skip_ws_Cons [OF d] lcs r by simp
      moreover have "parse_value k s = Some (v, r)" if "enough k s r" for k
      proof -
        from pos [OF l that] obtain k' where "k = Suc k'" by blast
        with s obj d True r show ?thesis by simp
      qed
      ultimately show ?thesis by blast
    next
      case False
      with p s obj d obtain ms where m: "parse_members n [] cs = Some (ms, r)" and v: "v = JObj ms"
        by auto
      from assms(1) [OF s obj d False] m
      have l: "length r < length cs" and f: "\<And>k. enough (Suc k) cs r \<Longrightarrow> parse_members k [] cs = Some (ms, r)"
        by (auto simp: members_ok_def)
      have "parse_value k s = Some (v, r)" if "enough k s r" for k
      proof -
        from l lcs have "length r < length s" by simp
        from pos [OF this that] obtain k' where k: "k = Suc k'" by blast
        with that l lcs have "enough (Suc k') cs r" by (simp add: enough_def)
        from f [OF this] s obj d False v k show ?thesis by simp
      qed
      with l lcs show ?thesis by auto
    qed
  next
    case arr
    with p s obtain d r0 where d: "skip_ws cs = d # r0"
      by (cases "skip_ws cs") auto
    show ?thesis
    proof (cases "d = CHR '']''")
      case True
      with p s arr d have r: "v = JArr []" "r = r0" by auto
      have l: "length r < length s"
        using skip_ws_Cons [OF d] lcs r by simp
      moreover have "parse_value k s = Some (v, r)" if "enough k s r" for k
      proof -
        from pos [OF l that] obtain k' where "k = Suc k'" by blast
        with s arr d True r show ?thesis by simp
      qed
      ultimately show ?thesis by blast
    next
      case False
      with p s arr d obtain vs where m: "parse_elements n cs = Some (vs, r)" and v: "v = JArr vs"
        by auto
      from assms(2) [OF s arr d False] m
      have l: "length r < length cs" and f: "\<And>k. enough (Suc k) cs r \<Longrightarrow> parse_elements k cs = Some (vs, r)"
        by (auto simp: elements_ok_def)
      have "parse_value k s = Some (v, r)" if "enough k s r" for k
      proof -
        from l lcs have "length r < length s" by simp
        from pos [OF this that] obtain k' where k: "k = Suc k'" by blast
        with that l lcs have "enough (Suc k') cs r" by (simp add: enough_def)
        from f [OF this] s arr d False v k show ?thesis by simp
      qed
      with l lcs show ?thesis by auto
    qed
  next
    case str
    with p s obtain x where x: "parse_chars cs = Some (x, r)" and v: "v = JStr x"
      by auto
    from parse_chars_shorter [OF x] lcs have l: "length r < length s" by simp
    moreover have "parse_value k s = Some (v, r)" if "enough k s r" for k
    proof -
      from pos [OF l that] obtain k' where "k = Suc k'" by blast
      with s str x v show ?thesis by simp
    qed
    ultimately show ?thesis by blast
  next
    case other
    have ls: "length (c # cs) \<le> length s"
      using skip_ws_length [of s] s by simp
    have same: "parse_value (Suc k') s = parse_value (Suc n) s" for k'
      using s other by simp
    have l: "length r < length s"
    proof (cases "c = CHR ''-'' \<or> is_digit c")
      case True
      with p s other obtain q where "parse_number (c # cs) = Some (q, r)" by auto
      from parse_number_shorter [OF this] ls show ?thesis by simp
    next
      case False
      with p s other have "r = drop 4 (c # cs) \<or> r = drop 5 (c # cs)"
        by (auto split: if_splits)
      with ls show ?thesis by auto
    qed
    moreover have "parse_value k s = Some (v, r)" if "enough k s r" for k
    proof -
      from pos [OF l that] obtain k' where "k = Suc k'" by blast
      with same [of k'] p show ?thesis by simp
    qed
    ultimately show ?thesis by blast
  qed
qed

lemma elements_ok_Suc:
  assumes val: "value_ok n s"
    and rest: "\<And>v r1 c r'. parse_value n s = Some (v, r1) \<Longrightarrow> skip_ws r1 = c # r' \<Longrightarrow>
        c = CHR '','' \<Longrightarrow> elements_ok n r'"
  shows "elements_ok (Suc n) s"
  unfolding elements_ok_def
proof (intro allI impI)
  fix vs r
  assume p: "parse_elements (Suc n) s = Some (vs, r)"
  then obtain v r1 where v: "parse_value n s = Some (v, r1)"
    by (cases "parse_value n s") auto
  from val v have l1: "length r1 < length s"
    and f1: "\<And>k. enough k s r1 \<Longrightarrow> parse_value k s = Some (v, r1)"
    by (auto simp: value_ok_def)
  from p v obtain c r' where c: "skip_ws r1 = c # r'"
    by (cases "skip_ws r1") auto
  have l2: "length r' < length r1" using c by (rule skip_ws_Cons)
  show "length r < length s \<and> (\<forall>k. enough (Suc k) s r \<longrightarrow> parse_elements k s = Some (vs, r))"
  proof (cases "c = CHR '',''")
    case True
    with p v c obtain vs' where e: "parse_elements n r' = Some (vs', r)" and vs: "vs = v # vs'"
      by auto
    from rest [OF v c True] e have l3: "length r < length r'"
      and f3: "\<And>k. enough (Suc k) r' r \<Longrightarrow> parse_elements k r' = Some (vs', r)"
      by (auto simp: elements_ok_def)
    have "parse_elements k s = Some (vs, r)" if "enough (Suc k) s r" for k
    proof -
      from that l1 l2 l3 obtain k' where k: "k = Suc k'"
        by (cases k) (auto simp: enough_def)
      from that l1 l2 l3 have "enough k' s r1" "enough (Suc k') r' r"
        by (auto simp: enough_def k)
      with f1 f3 have "parse_value k' s = Some (v, r1)" "parse_elements k' r' = Some (vs', r)"
        by blast+
      with c True vs show ?thesis by (simp add: k)
    qed
    with l1 l2 l3 show ?thesis by auto
  next
    case False
    with p v c have r: "c = CHR '']''" "vs = [v]" "r = r'"
      by (auto split: if_splits)
    have "parse_elements k s = Some (vs, r)" if "enough (Suc k) s r" for k
    proof -
      from that l1 l2 r obtain k' where k: "k = Suc k'"
        by (cases k) (auto simp: enough_def)
      from that l1 l2 r have "enough k' s r1"
        by (auto simp: enough_def k)
      with f1 have "parse_value k' s = Some (v, r1)" by blast
      with c r show ?thesis by (simp add: k)
    qed
    with l1 l2 r show ?thesis by auto
  qed
qed

lemma members_ok_Suc:
  assumes val: "\<And>q s1 k s2 c s3. skip_ws s = q # s1 \<Longrightarrow> q = CHR 0x22 \<Longrightarrow>
        parse_chars s1 = Some (k, s2) \<Longrightarrow> skip_ws s2 = c # s3 \<Longrightarrow> c = CHR '':'' \<Longrightarrow> value_ok n s3"
    and rest: "\<And>q s1 k s2 c s3 v s4 d s5. skip_ws s = q # s1 \<Longrightarrow> q = CHR 0x22 \<Longrightarrow>
        parse_chars s1 = Some (k, s2) \<Longrightarrow> skip_ws s2 = c # s3 \<Longrightarrow> c = CHR '':'' \<Longrightarrow>
        parse_value n s3 = Some (v, s4) \<Longrightarrow> skip_ws s4 = d # s5 \<Longrightarrow> d = CHR '','' \<Longrightarrow>
        members_ok n (AList.update k v acc) s5"
  shows "members_ok (Suc n) acc s"
  unfolding members_ok_def
proof (intro allI impI)
  fix ms r
  assume p: "parse_members (Suc n) acc s = Some (ms, r)"
  then obtain q s1 where q: "skip_ws s = q # s1"
    by (cases "skip_ws s") auto
  with p have qq: "q = CHR 0x22"
    by (auto split: if_splits)
  with p q obtain k s2 where k: "parse_chars s1 = Some (k, s2)"
    by (cases "parse_chars s1") auto
  with p q qq obtain c s3 where c: "skip_ws s2 = c # s3"
    by (cases "skip_ws s2") auto
  with p q qq k have cc: "c = CHR '':''"
    by (auto split: if_splits)
  with p q qq k c obtain v s4 where v: "parse_value n s3 = Some (v, s4)"
    by (cases "parse_value n s3") auto
  with p q qq k c cc obtain d s5 where d: "skip_ws s4 = d # s5"
    by (cases "skip_ws s4") auto
  have step: "parse_members (Suc j) acc s =
      (if d = CHR '','' then parse_members j (AList.update k v acc) s5
       else if d = CHR ''}'' then Some (AList.update k v acc, s5) else None)"
    if "parse_value j s3 = Some (v, s4)" for j
    using q qq k c cc d that by simp
  from val [OF q qq k c cc] v have l4: "length s4 < length s3"
    and f4: "\<And>j. enough j s3 s4 \<Longrightarrow> parse_value j s3 = Some (v, s4)"
    by (auto simp: value_ok_def)
  have l1: "length s1 < length s" using q by (rule skip_ws_Cons)
  have l2: "length s2 < length s1" using k by (rule parse_chars_shorter)
  have l3: "length s3 < length s2" using c by (rule skip_ws_Cons)
  have l5: "length s5 < length s4" using d by (rule skip_ws_Cons)
  from p step [OF v]
  have res: "(if d = CHR '','' then parse_members n (AList.update k v acc) s5
       else if d = CHR ''}'' then Some (AList.update k v acc, s5) else None) = Some (ms, r)"
    by simp
  show "length r < length s \<and> (\<forall>j. enough (Suc j) s r \<longrightarrow> parse_members j acc s = Some (ms, r))"
  proof (cases "d = CHR '',''")
    case True
    with res have m: "parse_members n (AList.update k v acc) s5 = Some (ms, r)" by simp
    from rest [OF q qq k c cc v d True] m have l6: "length r < length s5"
      and f6: "\<And>j. enough (Suc j) s5 r \<Longrightarrow> parse_members j (AList.update k v acc) s5 = Some (ms, r)"
      by (auto simp: members_ok_def)
    have "parse_members j acc s = Some (ms, r)" if "enough (Suc j) s r" for j
    proof -
      from that l1 l2 l3 l4 l5 l6 obtain j' where j: "j = Suc j'"
        by (cases j) (auto simp: enough_def)
      from that l1 l2 l3 l4 l5 l6 have "enough j' s3 s4" "enough (Suc j') s5 r"
        by (auto simp: enough_def j)
      with f4 f6 have "parse_value j' s3 = Some (v, s4)"
        "parse_members j' (AList.update k v acc) s5 = Some (ms, r)"
        by blast+
      with step [of j'] True show ?thesis by (simp add: j)
    qed
    with l1 l2 l3 l4 l5 l6 show ?thesis by auto
  next
    case False
    with res have r: "d = CHR ''}''" "ms = AList.update k v acc" "r = s5"
      by (auto split: if_splits)
    have "parse_members j acc s = Some (ms, r)" if "enough (Suc j) s r" for j
    proof -
      from that l1 l2 l3 l4 l5 r obtain j' where j: "j = Suc j'"
        by (cases j) (auto simp: enough_def)
      from that l1 l2 l3 l4 l5 r have "enough j' s3 s4"
        by (auto simp: enough_def j)
      with f4 have "parse_value j' s3 = Some (v, s4)" by blast
      with step [of j'] False r show ?thesis by (simp add: j)
    qed
    with l1 l2 l3 l4 l5 r show ?thesis by auto
  qed
qed

lemma parse_ok:
  "value_ok n s" "elements_ok n s" "members_ok n acc s"
proof (induction n s and n s and n acc s rule: parse_value_parse_elements_parse_members.induct)
  case (1 s)
  show ?case by (simp add: value_ok_def)
next
  case (2 n s)
  show ?case
  proof (rule value_ok_Suc)
    fix c cs d r
    assume "skip_ws s = c # cs" "c = CHR ''{''" "skip_ws cs = d # r" "d \<noteq> CHR ''}''"
    then show "members_ok n [] cs" by (rule 2(1))
  next
    fix c cs d r
    assume "skip_ws s = c # cs" "c \<noteq> CHR ''{''" "c = CHR ''[''" "skip_ws cs = d # r" "d \<noteq> CHR '']''"
    then show "elements_ok n cs" by (rule 2(2))
  qed
next
  case (3 s)
  show ?case by (simp add: elements_ok_def)
next
  case (4 n s)
  show ?case
  proof (rule elements_ok_Suc)
    show "value_ok n s" by (rule 4(1))
  next
    fix v r1 c r'
    assume a: "parse_value n s = Some (v, r1)" "skip_ws r1 = c # r'" "c = CHR '',''"
    show "elements_ok n r'"
      by (rule 4(2) [OF a(1) refl a(2,3)])
  qed
next
  case (5 acc s)
  show ?case by (simp add: members_ok_def)
next
  case (6 n acc s)
  show ?case
  proof (rule members_ok_Suc)
    fix q s1 k s2 c s3
    assume a: "skip_ws s = q # s1" "q = CHR 0x22" "parse_chars s1 = Some (k, s2)"
      "skip_ws s2 = c # s3" "c = CHR '':''"
    from a(2) have q: "\<not> q \<noteq> CHR 0x22" by simp
    from a(5) have c: "\<not> c \<noteq> CHR '':''" by simp
    show "value_ok n s3"
      by (rule 6(1) [OF a(1) q a(3) refl a(4) c])
  next
    fix q s1 k s2 c s3 v s4 d s5
    assume a: "skip_ws s = q # s1" "q = CHR 0x22" "parse_chars s1 = Some (k, s2)"
      "skip_ws s2 = c # s3" "c = CHR '':''" "parse_value n s3 = Some (v, s4)"
      "skip_ws s4 = d # s5" "d = CHR '',''"
    from a(2) have q: "\<not> q \<noteq> CHR 0x22" by simp
    from a(5) have c: "\<not> c \<noteq> CHR '':''" by simp
    show "members_ok n (AList.update k v acc) s5"
      by (rule 6(2) [OF a(1) q a(3) refl a(4) c a(6) refl a(7,8)])
  qed
qed

lemma parse_value_bound:
  assumes "parse_value n s = Some (v, r)"
  shows "parse_value (2 * length s + 2) s = Some (v, r)"
proof -
  from parse_ok(1) [of n s] assms
  have "\<forall>k. enough k s r \<longrightarrow> parse_value k s = Some (v, r)"
    by (simp add: value_ok_def)
  moreover have "enough (2 * length s + 2) s r"
    by (simp add: enough_def)
  ultimately show ?thesis by blast
qed

lemma JSON_parse_accepts:
  assumes "parse_value n s = Some (v, r)" and "skip_ws r = []"
  shows "JSON_parse s = Inr v"
  using parse_value_bound [OF assms(1)] assms(2) by (simp add: JSON_parse_def)

section \<open>Printing and parsing back\<close>

lemma of_char_digit: "d < 10 \<Longrightarrow> (of_char (char_of (48 + d :: nat)) :: nat) = 48 + d"
  by simp

lemma is_digit_char_of: "d < 10 \<Longrightarrow> is_digit (char_of (48 + d :: nat))"
  by (simp add: is_digit_def)

lemma char_of_digit_zero: "d < 10 \<Longrightarrow> (char_of (48 + d :: nat) = CHR ''0'') = (d = 0)"
proof -
  assume d: "d < 10"
  have "(char_of (48 + d :: nat) = CHR ''0'') = ((of_char (char_of (48 + d :: nat)) :: nat) = of_char (CHR ''0''))"
    by (simp only: of_char_eq_iff)
  also have "\<dots> = (d = 0)" using d by simp
  finally show ?thesis .
qed

lemma show_nat_digits: "list_all is_digit (show_nat n)"
proof (induction n rule: show_nat.induct)
  case (1 n)
  then show ?case
    by (subst show_nat.simps) (auto simp: is_digit_char_of)
qed

lemma show_nat_nonempty: "show_nat n \<noteq> []"
  by (subst show_nat.simps) simp

lemma digits_val_snoc: "digits_val (xs @ [c]) = 10 * digits_val xs + (of_char c - 48)"
  by (simp add: digits_val_def)

lemma digits_val_show_nat: "digits_val (show_nat n) = n"
proof (induction n rule: show_nat.induct)
  case (1 n)
  show ?case
  proof (cases "n < 10")
    case True
    then show ?thesis
      by (subst show_nat.simps) (simp add: digits_val_def)
  next
    case False
    with 1 have "digits_val (show_nat (n div 10)) = n div 10" by simp
    with False show ?thesis
      by (subst show_nat.simps) (simp add: digits_val_snoc)
  qed
qed

lemma show_nat_no_leading_zero:
  "1 < length (show_nat n) \<Longrightarrow> hd (show_nat n) \<noteq> CHR ''0''"
proof (induction n rule: show_nat.induct)
  case (1 n)
  show ?case
  proof (cases "n < 10")
    case True
    with 1(2) show ?thesis by (subst (asm) show_nat.simps) simp
  next
    case False
    then have eq: "show_nat n = show_nat (n div 10) @ [char_of (48 + n mod 10)]"
      by (subst show_nat.simps) simp
    then have hd: "hd (show_nat n) = hd (show_nat (n div 10))"
      by (simp add: show_nat_nonempty)
    show ?thesis
    proof (cases "n div 10 < 10")
      case True
      from False have "n div 10 \<noteq> 0" by auto
      with True show ?thesis
        unfolding hd by (subst show_nat.simps) (simp add: char_of_digit_zero)
    next
      case F2: False
      then have "1 < length (show_nat (n div 10))"
        by (subst show_nat.simps) (simp add: show_nat_nonempty Suc_lessI)
      with 1(1) False show ?thesis unfolding hd by simp
    qed
  qed
qed

lemma stop_cases: "stop r \<Longrightarrow> r = [] \<or> (\<exists>c cs. r = c # cs \<and> (c = CHR '','' \<or> c = CHR '']'' \<or> c = CHR ''}''))"
  by (cases r) (auto simp: stop_def)

lemma takeWhile_digits:
  "list_all is_digit ds \<Longrightarrow> stop r \<Longrightarrow> takeWhile is_digit (ds @ r) = ds \<and> dropWhile is_digit (ds @ r) = r"
  by (induction ds) (auto dest!: stop_cases simp: is_digit_def)

lemma parse_frac_stop: "stop r \<Longrightarrow> parse_frac r = Some ([], r)"
  by (auto dest!: stop_cases simp: parse_frac_def)

lemma parse_exp_stop: "stop r \<Longrightarrow> parse_exp r = Some (0, r)"
  by (auto dest!: stop_cases simp: parse_exp_def)

lemma parse_number_show_num:
  assumes "q = of_int \<lfloor>q\<rfloor>" and "stop r"
  shows "parse_number (show_num q @ r) = Some (q, r)"
proof -
  define n where "n = nat \<bar>\<lfloor>q\<rfloor>\<bar>"
  have abs: "\<bar>q\<bar> = of_nat n"
    using assms(1) by (metis n_def of_int_abs of_int_of_nat_eq abs_ge_zero nat_0_le)
  then have fl: "\<lfloor>\<bar>q\<bar>\<rfloor> = int n" by simp
  have sn: "show_num q = (if q < 0 then ''-'' else []) @ show_nat n"
    by (simp add: show_num_def Let_def abs)
  have tw: "takeWhile is_digit (show_nat n @ r) = show_nat n" "dropWhile is_digit (show_nat n @ r) = r"
    using takeWhile_digits [OF show_nat_digits assms(2)] by simp_all
  obtain c cs where c: "show_nat n = c # cs" "is_digit c"
    using show_nat_nonempty [of n] show_nat_digits [of n] by (cases "show_nat n") auto
  then have cm: "c \<noteq> CHR ''-''" by (auto simp: is_digit_def)
  have lz: "\<not> (1 < length (show_nat n) \<and> hd (show_nat n) = CHR ''0'')"
    using show_nat_no_leading_zero by blast
  have neg: "parse_number (''-'' @ show_nat n @ r) = Some (- of_nat n, r)"
    using tw lz show_nat_nonempty [of n]
    by (simp add: parse_number_def Let_def parse_frac_stop [OF assms(2)]
        parse_exp_stop [OF assms(2)] digits_val_show_nat pow10_def)
  have pos: "parse_number (show_nat n @ r) = Some (of_nat n, r)"
    using tw lz show_nat_nonempty [of n] cm
    by (simp add: c(1) [symmetric] parse_number_def Let_def parse_frac_stop [OF assms(2)]
        parse_exp_stop [OF assms(2)] digits_val_show_nat pow10_def)
       (simp add: c(1))
  show ?thesis
  proof (cases "q < 0")
    case True
    then have "q = - of_nat n" using abs by simp
    with True neg show ?thesis unfolding sn by simp
  next
    case False
    then have "q = of_nat n" using abs by simp
    with False pos show ?thesis unfolding sn by simp
  qed
qed

lemma hex_val_hex_digit: "k < 16 \<Longrightarrow> hex_val (hex_digit k) = Some k"
  by (auto simp: hex_val_def hex_digit_def Let_def)

lemma hex_val_zero: "hex_val (CHR ''0'') = Some 0"
  by (simp add: hex_val_def)

lemma hex4_escape:
  "n < 32 \<Longrightarrow> hex4 (CHR ''0'') (CHR ''0'') (hex_digit (n div 16)) (hex_digit (n mod 16)) = Some n"
  by (simp add: hex4_def hex_val_zero hex_val_hex_digit)

lemma parse_chars_backslash:
  "e \<noteq> CHR ''u'' \<Longrightarrow> unescape e = Some d \<Longrightarrow>
     parse_chars (CHR 0x5C # e # x) = map_option (\<lambda>(s, t). (d # s, t)) (parse_chars x)"
  by simp

lemma parse_chars_u00:
  assumes "n < 32"
  shows "parse_chars (CHR 0x5C # CHR ''u'' # CHR ''0'' # CHR ''0'' # hex_digit (n div 16) # hex_digit (n mod 16) # x)
     = map_option (\<lambda>(s, t). (char_of n # s, t)) (parse_chars x)"
  using assms by (simp add: hex4_escape utf8_def)

lemma parse_chars_plain:
  "c \<noteq> CHR 0x22 \<Longrightarrow> c \<noteq> CHR 0x5C \<Longrightarrow> \<not> (of_char c :: nat) < 0x20 \<Longrightarrow>
     parse_chars (c # x) = map_option (\<lambda>(s, t). (c # s, t)) (parse_chars x)"
  by simp

lemma parse_chars_escape:
  "parse_chars (escape c @ x) = map_option (\<lambda>(s, t). (c # s, t)) (parse_chars x)"
proof -
  consider "c = CHR 0x22" | "c = CHR 0x5C" | "c = CHR 0x08" | "c = CHR 0x0C" | "c = CHR 0x0A"
    | "c = CHR 0x0D" | "c = CHR 0x09"
    | "c \<noteq> CHR 0x22" "c \<noteq> CHR 0x5C" "c \<noteq> CHR 0x08" "c \<noteq> CHR 0x0C" "c \<noteq> CHR 0x0A"
      "c \<noteq> CHR 0x0D" "c \<noteq> CHR 0x09" "(of_char c :: nat) < 0x20"
    | "c \<noteq> CHR 0x22" "c \<noteq> CHR 0x5C" "\<not> (of_char c :: nat) < 0x20"
    by fastforce
  then show ?thesis
  proof cases
    case 8
    then have "escape c @ x = CHR 0x5C # CHR ''u'' # CHR ''0'' # CHR ''0''
        # hex_digit (of_char c div 16) # hex_digit (of_char c mod 16) # x"
      by (simp add: escape_def)
    with 8(8) parse_chars_u00 [of "of_char c" x] show ?thesis
      by (simp del: parse_chars.simps)
  next
    case 9
    then have "escape c @ x = c # x"
      by (auto simp: escape_def)
    with 9 parse_chars_plain [of c x] show ?thesis
      by (simp del: parse_chars.simps)
  qed (simp_all add: escape_def unescape_def del: parse_chars.simps add: parse_chars_backslash)
qed

lemma parse_chars_quote:
  "parse_chars (concat (map escape s) @ CHR 0x22 # r) = Some (s, r)"
  by (induction s) (simp_all add: parse_chars_escape del: parse_chars.simps, simp)

lemma skip_ws_head: "\<not> json_ws c \<Longrightarrow> skip_ws (c # cs) = c # cs"
  by (simp add: skip_ws_def)

lemma digit_value_start: "is_digit c \<Longrightarrow> value_start c"
  by (auto simp: is_digit_def value_start_def json_ws_def)

lemma show_num_head: "\<exists>c cs. show_num q = c # cs \<and> value_start c"
proof (cases "q < 0")
  case True
  then show ?thesis by (simp add: show_num_def Let_def value_start_def json_ws_def)
next
  case False
  obtain c cs where "show_nat (nat \<lfloor>\<bar>q\<bar>\<rfloor>) = c # cs" "is_digit c"
    using show_nat_nonempty [of "nat \<lfloor>\<bar>q\<bar>\<rfloor>"] show_nat_digits [of "nat \<lfloor>\<bar>q\<bar>\<rfloor>"]
    by (cases "show_nat (nat \<lfloor>\<bar>q\<bar>\<rfloor>)") auto
  with False show ?thesis by (simp add: show_num_def Let_def digit_value_start)
qed

lemma stringify_head: "\<exists>c cs. JSON_stringify v = c # cs \<and> value_start c"
proof (cases v)
  case (JNum q)
  then show ?thesis using show_num_head [of q] by simp
qed (auto simp: quote_def value_start_def json_ws_def)

lemma update_fresh: "k \<notin> fst ` set al \<Longrightarrow> AList.update k v al = al @ [(k, v)]"
  by (induction al) auto

lemma stop_simps [simp]:
  "stop []" "stop (CHR '','' # x)" "stop (CHR '']'' # x)" "stop (CHR ''}'' # x)"
  by (simp_all add: stop_def)

lemma skip_ws_simps [simp]:
  "skip_ws (CHR '','' # x) = CHR '','' # x" "skip_ws (CHR '']'' # x) = CHR '']'' # x"
  "skip_ws (CHR ''}'' # x) = CHR ''}'' # x" "skip_ws (CHR '':'' # x) = CHR '':'' # x"
  "skip_ws (CHR 0x22 # x) = CHR 0x22 # x"
  by (simp_all add: skip_ws_def json_ws_def)

lemma parse_elements_stringify:
  assumes IH: "\<And>v n r. v \<in> set vs \<Longrightarrow> canonical v \<Longrightarrow> need v \<le> n \<Longrightarrow> stop r \<Longrightarrow>
          parse_value n (JSON_stringify v @ r) = Some (v, r)"
    and "vs \<noteq> []" and "list_all canonical vs" and "sum_list (map need vs) + length vs \<le> n"
  shows "parse_elements n (commas (map JSON_stringify vs) @ CHR '']'' # r) = Some (vs, r)"
  using assms
proof (induction vs arbitrary: n)
  case Nil
  then show ?case by simp
next
  case (Cons v vs)
  from Cons.prems(4) obtain n' where n: "n = Suc n'" "need v \<le> n'"
    "sum_list (map need vs) + length vs \<le> n'"
    by (cases n) auto
  from Cons.prems(3) have cv: "canonical v" and cvs: "list_all canonical vs" by simp_all
  show ?case
  proof (cases vs)
    case Nil
    have "parse_value n' (JSON_stringify v @ CHR '']'' # r) = Some (v, CHR '']'' # r)"
      using cv n(2) by (intro Cons.prems(1)) simp_all
    with Nil show ?thesis by (simp add: n(1))
  next
    case (Cons v' vs')
    let ?rest = "commas (map JSON_stringify vs) @ CHR '']'' # r"
    have "parse_value n' (JSON_stringify v @ CHR '','' # ?rest) = Some (v, CHR '','' # ?rest)"
      using cv n(2) by (intro Cons.prems(1)) simp_all
    moreover have "parse_elements n' ?rest = Some (vs, r)"
      using Cons cvs n(3) Cons.prems(1) by (intro Cons.IH) auto
    ultimately show ?thesis using Cons by (simp add: n(1))
  qed
qed

lemma parse_member_step:
  assumes "parse_value n (JSON_stringify v @ d # x) = Some (v, d # x)"
    and "d = CHR '','' \<or> d = CHR ''}''"
  shows "parse_members (Suc n) acc (member_text (k, v) @ d # x) =
     (if d = CHR '','' then parse_members n (AList.update k v acc) x
      else Some (AList.update k v acc, x))"
  using assms
  by (auto simp: quote_def parse_chars_quote simp del: parse_chars.simps)

lemma parse_members_stringify:
  assumes IH: "\<And>m n r. m \<in> set ms \<Longrightarrow> canonical (snd m) \<Longrightarrow> need (snd m) \<le> n \<Longrightarrow> stop r \<Longrightarrow>
          parse_value n (JSON_stringify (snd m) @ r) = Some (snd m, r)"
    and "ms \<noteq> []" and "list_all (\<lambda>m. canonical (snd m)) ms"
    and "distinct (map fst (acc @ ms))"
    and "sum_list (map (\<lambda>m. need (snd m)) ms) + length ms \<le> n"
  shows "parse_members n acc (commas (map member_text ms) @ CHR ''}'' # r) = Some (acc @ ms, r)"
  using assms
proof (induction ms arbitrary: n acc)
  case Nil
  then show ?case by simp
next
  case (Cons m ms)
  obtain k v where m: "m = (k, v)" by (cases m)
  from Cons.prems(5) obtain n' where n: "n = Suc n'" "need v \<le> n'"
    "sum_list (map (\<lambda>m. need (snd m)) ms) + length ms \<le> n'"
    by (cases n) (auto simp: m)
  from Cons.prems(3) have cv: "canonical v" and cms: "list_all (\<lambda>m. canonical (snd m)) ms"
    by (simp_all add: m)
  from Cons.prems(4) have fresh: "k \<notin> fst ` set acc"
    and dist: "distinct (map fst ((acc @ [(k, v)]) @ ms))"
    by (auto simp: m)
  have upd: "AList.update k v acc = acc @ [(k, v)]"
    using fresh by (rule update_fresh)
  have pv: "\<And>r. stop r \<Longrightarrow> parse_value n' (JSON_stringify v @ r) = Some (v, r)"
    using Cons.prems(1) [of m n'] cv n(2) by (simp add: m)
  show ?case
  proof (cases ms)
    case Nil
    have "parse_value n' (JSON_stringify v @ CHR ''}'' # r) = Some (v, CHR ''}'' # r)"
      by (rule pv) simp
    from parse_member_step [OF this, of acc k] Nil show ?thesis
      by (simp add: n(1) m upd del: parse_members.simps)
  next
    case (Cons m' ms')
    let ?rest = "commas (map member_text ms) @ CHR ''}'' # r"
    have "parse_value n' (JSON_stringify v @ CHR '','' # ?rest) = Some (v, CHR '','' # ?rest)"
      by (rule pv) simp
    from parse_member_step [OF this, of acc k]
    have "parse_members n acc (member_text (k, v) @ CHR '','' # ?rest)
        = parse_members n' (acc @ [(k, v)]) ?rest"
      by (simp add: n(1) upd del: parse_members.simps)
    moreover have "parse_members n' (acc @ [(k, v)]) ?rest = Some ((acc @ [(k, v)]) @ ms, r)"
      using Cons cms dist n(3) Cons.prems(1) by (intro Cons.IH) auto
    ultimately show ?thesis using Cons by (simp add: m del: parse_members.simps)
  qed
qed

lemma parse_value_stringify:
  "canonical v \<Longrightarrow> need v \<le> n \<Longrightarrow> stop r \<Longrightarrow> parse_value n (JSON_stringify v @ r) = Some (v, r)"
proof (induction v arbitrary: n r)
  case JNull
  then obtain n' where "n = Suc n'" by (cases n) auto
  then show ?case by (simp add: skip_ws_def json_ws_def is_digit_def)
next
  case (JBool b)
  then obtain n' where "n = Suc n'" by (cases n) auto
  then show ?case by (simp add: skip_ws_def json_ws_def is_digit_def)
next
  case (JNum q)
  then obtain n' where n: "n = Suc n'" by (cases n) auto
  from JNum have pn: "parse_number (show_num q @ r) = Some (q, r)"
    by (intro parse_number_show_num) simp_all
  obtain c cs where c: "show_num q = c # cs" "value_start c"
    using show_num_head by blast
  have "c = CHR ''-'' \<or> is_digit c"
  proof (cases "q < 0")
    case True
    with c(1) show ?thesis by (simp add: show_num_def Let_def)
  next
    case False
    with c(1) show_nat_digits [of "nat \<lfloor>\<bar>q\<bar>\<rfloor>"] show_nat_nonempty [of "nat \<lfloor>\<bar>q\<bar>\<rfloor>"]
    show ?thesis
      by (cases "show_nat (nat \<lfloor>\<bar>q\<bar>\<rfloor>)") (auto simp: show_num_def Let_def)
  qed
  moreover from this have "c \<noteq> CHR ''{''" "c \<noteq> CHR ''[''" "c \<noteq> CHR 0x22"
    by (auto simp: is_digit_def)
  ultimately show ?case
    using pn c by (auto simp: n skip_ws_head value_start_def)
next
  case (JStr s)
  then obtain n' where "n = Suc n'" by (cases n) auto
  then show ?case
    by (simp add: quote_def parse_chars_quote del: parse_chars.simps)
next
  case (JArr vs)
  from JArr.prems(2) obtain n' where n: "n = Suc n'" "sum_list (map need vs) + length vs \<le> n'"
    by (cases n) auto
  show ?case
  proof (cases vs)
    case Nil
    then show ?thesis by (simp add: n(1) skip_ws_def json_ws_def)
  next
    case (Cons v vs')
    obtain c cs where c: "JSON_stringify v = c # cs" "value_start c"
      using stringify_head by blast
    let ?text = "commas (map JSON_stringify vs) @ CHR '']'' # r"
    have head: "\<exists>x. ?text = c # x"
      using Cons c(1) by (cases vs') simp_all
    have pe: "parse_elements n' ?text = Some (vs, r)"
      using JArr.prems(1) n(2) Cons JArr.IH
      by (intro parse_elements_stringify) auto
    from head obtain x where x: "?text = c # x" by blast
    have "parse_value (Suc n') (CHR ''['' # ?text) = Some (JArr vs, r)"
      using c(2) pe unfolding x
      by (simp add: skip_ws_head skip_ws_def json_ws_def value_start_def)
    then show ?thesis by (simp add: n(1))
  qed
next
  case (JObj ms)
  from JObj.prems(2) obtain n' where n: "n = Suc n'"
    "sum_list (map (\<lambda>m. need (snd m)) ms) + length ms \<le> n'"
    by (cases n) auto
  show ?case
  proof (cases ms)
    case Nil
    then show ?thesis by (simp add: n(1) skip_ws_def json_ws_def)
  next
    case (Cons m ms')
    let ?text = "commas (map member_text ms) @ CHR ''}'' # r"
    have head: "\<exists>x. ?text = CHR 0x22 # x"
      using Cons by (cases ms') (simp_all add: quote_def)
    have IH: "\<And>m n r. m \<in> set ms \<Longrightarrow> canonical (snd m) \<Longrightarrow> need (snd m) \<le> n \<Longrightarrow> stop r \<Longrightarrow>
          parse_value n (JSON_stringify (snd m) @ r) = Some (snd m, r)"
    proof -
      fix m n r
      assume "m \<in> set ms" "canonical (snd m)" "need (snd m) \<le> n" "stop r"
      then show "parse_value n (JSON_stringify (snd m) @ r) = Some (snd m, r)"
        using JObj.IH [of m "snd m" n r] by (simp add: snds.intros)
    qed
    have pm: "parse_members n' [] ?text = Some ([] @ ms, r)"
      using JObj.prems(1) n(2) Cons IH
      by (intro parse_members_stringify) auto
    from head obtain x where x: "?text = CHR 0x22 # x" by blast
    have "parse_value (Suc n') (CHR ''{'' # ?text) = Some (JObj ms, r)"
      using pm unfolding x
      by (simp add: skip_ws_def json_ws_def del: parse_members.simps)
    then show ?thesis by (simp add: n(1) del: parse_value.simps)
  qed
qed

lemma length_commas: "sum_list (map length xs) + length xs \<le> Suc (length (commas xs))"
  by (induction xs rule: commas.induct) auto

lemma stringify_nonempty: "1 \<le> length (JSON_stringify v)"
  using stringify_head [of v] by auto

lemma sum_list_need_le:
  assumes "\<And>x. x \<in> set xs \<Longrightarrow> f x \<le> 2 * length (g x)"
  shows "sum_list (map f xs) \<le> 2 * sum_list (map (\<lambda>x. length (g x)) xs)"
  using assms by (induction xs) (auto simp: add_le_mono)

lemma need_le: "need v \<le> 2 * length (JSON_stringify v)"
proof (induction v)
  case (JArr vs)
  have "sum_list (map need vs) \<le> 2 * sum_list (map (\<lambda>v. length (JSON_stringify v)) vs)"
    using JArr by (intro sum_list_need_le) auto
  moreover have "sum_list (map length (map JSON_stringify vs)) + length (map JSON_stringify vs)
      \<le> Suc (length (commas (map JSON_stringify vs)))"
    by (rule length_commas)
  ultimately show ?case by (simp add: comp_def)
next
  case (JObj ms)
  have "sum_list (map (\<lambda>m. need (snd m)) ms)
      \<le> 2 * sum_list (map (\<lambda>m. length (JSON_stringify (snd m))) ms)"
    using JObj by (intro sum_list_need_le) (auto simp: snds.intros)
  also have "\<dots> \<le> 2 * sum_list (map (\<lambda>m. length (quote (fst m) @ '':'' @ JSON_stringify (snd m))) ms)"
    by (intro mult_le_mono2 sum_list_mono) simp
  finally have "sum_list (map (\<lambda>m. need (snd m)) ms)
      \<le> 2 * sum_list (map (\<lambda>m. length (quote (fst m) @ '':'' @ JSON_stringify (snd m))) ms)" .
  moreover have "sum_list (map length (map (\<lambda>m. quote (fst m) @ '':'' @ JSON_stringify (snd m)) ms))
        + length (map (\<lambda>m. quote (fst m) @ '':'' @ JSON_stringify (snd m)) ms)
      \<le> Suc (length (commas (map (\<lambda>m. quote (fst m) @ '':'' @ JSON_stringify (snd m)) ms)))"
    by (rule length_commas)
  ultimately show ?case by (simp add: comp_def)
next
  case (JNum q)
  show ?case using stringify_nonempty [of "JNum q"] by simp
next
  case (JStr s)
  show ?case by (simp add: quote_def)
qed simp_all

lemma JSON_parse_stringify: "canonical v \<Longrightarrow> JSON_parse (JSON_stringify v) = Inr v"
proof -
  assume c: "canonical v"
  have "need v \<le> 2 * length (JSON_stringify v) + 2"
    using need_le [of v] by simp
  from parse_value_stringify [OF c this, of "[]"] show ?thesis
    by (simp add: JSON_parse_def skip_ws_def del: JSON_stringify.simps)
qed

section \<open>Reading the stored accounts\<close>

lemma getUsers_storage:
  "getUsers w = Inr (v, w1) \<Longrightarrow> localStorage w1 = localStorage w"
  by (auto simp: getUsers_def console_error_def Let_def split: option.splits sum.splits if_splits)

text \<open>
  C1, as the code has it. \<^verbatim>\<open>getUsers\<close> never throws. It gives the empty array, and
  logs nothing, when the key is absent or holds the empty string. When the stored text
  is not empty and \<^verbatim>\<open>JSON.parse\<close> rejects it, it logs the failure and gives the empty
  array. When \<^verbatim>\<open>JSON.parse\<close> accepts the text, it gives the parsed value as it is,
  whatever its structure, and logs nothing.
\<close>

theorem getUsers_never_throws:
  "(\<exists>v w1. getUsers w = Inr (v, w1))
   \<and> (getItem ''users'' w = None \<longrightarrow> getUsers w = Inr (JArr [], w))
   \<and> (getItem ''users'' w = Some [] \<longrightarrow> getUsers w = Inr (JArr [], w))
   \<and> (getItem ''users'' w = Some d \<and> d \<noteq> [] \<and> JSON_parse d = Inl e \<longrightarrow>
        getUsers w = Inr (JArr [], console_error ''Error parsing users from localStorage'' w))
   \<and> (getItem ''users'' w = Some d \<and> d \<noteq> [] \<and> JSON_parse d = Inr v \<longrightarrow>
        getUsers w = Inr (v, w))"
  by (simp add: getUsers_def Let_def split: option.splits sum.splits)

theorem getUsers_never_throws_witness:
  "getUsers \<lparr>localStorage = [], console = []\<rparr> = Inr (JArr [], \<lparr>localStorage = [], console = []\<rparr>)
   \<and> getUsers \<lparr>localStorage = [(''users'', ''[{]'')], console = []\<rparr>
       = Inr (JArr [], \<lparr>localStorage = [(''users'', ''[{]'')],
                          console = [''Error parsing users from localStorage'']\<rparr>)
   \<and> getUsers \<lparr>localStorage = [(''users'', ''[7]'')], console = []\<rparr>
       = Inr (JArr [JNum 7], \<lparr>localStorage = [(''users'', ''[7]'')], console = []\<rparr>)"
proof -
  have absent: "getItem ''users'' \<lparr>localStorage = [], console = []\<rparr> = None"
    by (simp add: getItem_def)
  have bad: "getItem ''users'' \<lparr>localStorage = [(''users'', ''[{]'')], console = []\<rparr> = Some ''[{]''
      \<and> ''[{]'' \<noteq> [] \<and> JSON_parse ''[{]'' = Inl SyntaxError"
    by code_simp
  have good: "getItem ''users'' \<lparr>localStorage = [(''users'', ''[7]'')], console = []\<rparr> = Some ''[7]''
      \<and> ''[7]'' \<noteq> [] \<and> JSON_parse ''[7]'' = Inr (JArr [JNum 7])"
    by code_simp
  show ?thesis
    using absent bad good
      getUsers_never_throws [of "\<lparr>localStorage = [], console = []\<rparr>"]
      getUsers_never_throws [of "\<lparr>localStorage = [(''users'', ''[{]'')], console = []\<rparr>"
        "''[{]''" SyntaxError]
      getUsers_never_throws [of "\<lparr>localStorage = [(''users'', ''[7]'')], console = []\<rparr>"
        "''[7]''" _ "JArr [JNum 7]"]
    by (simp add: console_error_def)
qed

text \<open>
  C1, as the specification words it, fails: the stored text \<^verbatim>\<open>{}\<close> is not an account
  collection, yet \<^verbatim>\<open>getUsers\<close> gives the parsed object, not the empty array, and
  logs nothing.
\<close>

theorem getUsers_structure_counterexample:
  "getUsers \<lparr>localStorage = [(''users'', ''{}'')], console = []\<rparr>
     = Inr (JObj [], \<lparr>localStorage = [(''users'', ''{}'')], console = []\<rparr>)
   \<and> JObj [] \<noteq> JArr []"
  by code_simp

section \<open>Login\<close>

lemma is_account_obj: "is_account u \<Longrightarrow> \<exists>ms. u = JObj ms"
  by (cases u) auto

lemma email_is_account:
  "is_account u \<Longrightarrow> email_is e u = Inr (email_of u = Some e)"
  by (cases u) (auto simp: email_is_def email_of_def split: option.splits json.splits)

lemma Array_find_accounts:
  "list_all is_account us \<Longrightarrow>
     Array_find (email_is e) us = Inr (List.find (\<lambda>u. email_of u = Some e) us)"
  by (induction us) (simp_all add: email_is_account)

lemma Array_some_accounts:
  "list_all is_account us \<Longrightarrow>
     Array_some (email_is e) us = Inr (Some e \<in> set (map email_of us))"
  by (induction us) (auto simp: email_is_account)

lemma find_distinct_email:
  assumes "distinct (map email_of us)"
  shows "List.find (\<lambda>u. email_of u = Some e) us = Some u \<longleftrightarrow> (u \<in> set us \<and> email_of u = Some e)"
  using assms
  by (induction us) (auto simp: image_iff)

lemma password_account:
  "is_account u \<Longrightarrow> get_prop u ''password'' = Inr p \<Longrightarrow> (p = Some (JStr s)) = (password_of u = Some s)"
  by (cases u) (auto simp: password_of_def split: option.splits json.splits)

text \<open>
  C2. Over an account collection (accounts with pairwise different identifiers),
  \<^verbatim>\<open>handleLogin\<close> sets the session to the trimmed, lower-cased identifier and goes to
  the dashboard exactly when some account has that identifier and the given secret;
  otherwise it shows the one text \<open>InvalidCredentials\<close>, whichever of the two is
  wrong, and \<^verbatim>\<open>localStorage\<close> is as it was.
\<close>

theorem handleLogin_iff:
  assumes "getUsers w = Inr (JArr us, w1)" and "accounts us"
  shows "handleLogin identifier secret w =
     (if \<exists>u\<in>set us. email_of u = Some (toLowerCase (trim identifier)) \<and> password_of u = Some secret
      then (Navigate ''dashboard.html'', setCurrentUserEmail (toLowerCase (trim identifier)) w1)
      else (Shown InvalidCredentials, w1))
     \<and> localStorage w1 = localStorage w"
proof -
  define e where "e = toLowerCase (trim identifier)"
  from assms(2) have acc: "list_all is_account us" and dist: "distinct (map email_of us)"
    by (simp_all add: accounts_def)
  have fu: "findUser e w = Inr (List.find (\<lambda>u. email_of u = Some e) us, w1)"
    by (simp add: findUser_def assms(1) Array_find_accounts [OF acc])
  have st: "localStorage w1 = localStorage w"
    using assms(1) by (rule getUsers_storage)
  show ?thesis
  proof (cases "List.find (\<lambda>u. email_of u = Some e) us")
    case None
    then have "\<forall>u\<in>set us. email_of u \<noteq> Some e" by (simp add: find_None_iff)
    with None fu st show ?thesis
      by (auto simp: handleLogin_def e_def [symmetric] Let_def)
  next
    case (Some u)
    with dist have u: "u \<in> set us" "email_of u = Some e"
      by (simp_all add: find_distinct_email)
    from u(1) acc have iu: "is_account u" by (simp add: list_all_iff)
    then obtain ms where ms: "u = JObj ms" using is_account_obj by blast
    have uniq: "\<And>v. v \<in> set us \<Longrightarrow> email_of v = Some e \<Longrightarrow> v = u"
      using dist u by (auto simp: distinct_map inj_on_def)
    have "(\<exists>v\<in>set us. email_of v = Some e \<and> password_of v = Some secret) = (password_of u = Some secret)"
      using u uniq by blast
    moreover have "(map_of ms ''password'' = Some (JStr secret)) = (password_of u = Some secret)"
      using password_account [OF iu, of "map_of ms ''password''" secret] ms by simp
    ultimately show ?thesis
      using fu Some st ms
      by (auto simp: handleLogin_def e_def [symmetric] Let_def)
  qed
qed

theorem handleLogin_iff_witness:
  \<open>getUsers
     \<lparr>localStorage =
        [(''users'', ''[{"email":"a@x.com","password":"pw1","fund":4,"pet":null}]'')],
      console = []\<rparr>
     = Inr (JArr [newUser ''a@x.com'' ''pw1''],
            \<lparr>localStorage =
               [(''users'', ''[{"email":"a@x.com","password":"pw1","fund":4,"pet":null}]'')],
             console = []\<rparr>)
   \<and> accounts [newUser ''a@x.com'' ''pw1'']
   \<and> handleLogin '' A@X.com '' ''pw1''
         \<lparr>localStorage =
            [(''users'', ''[{"email":"a@x.com","password":"pw1","fund":4,"pet":null}]'')],
          console = []\<rparr>
       = (Navigate ''dashboard.html'',
          \<lparr>localStorage =
             [(''users'', ''[{"email":"a@x.com","password":"pw1","fund":4,"pet":null}]''),
              (''currentUser'', ''a@x.com'')],
           console = []\<rparr>)
   \<and> handleLogin ''a@x.com'' ''wrong''
         \<lparr>localStorage =
            [(''users'', ''[{"email":"a@x.com","password":"pw1","fund":4,"pet":null}]'')],
          console = []\<rparr>
       = (Shown InvalidCredentials,
          \<lparr>localStorage =
             [(''users'', ''[{"email":"a@x.com","password":"pw1","fund":4,"pet":null}]'')],
           console = []\<rparr>)\<close>
proof -
  let ?w = \<open>\<lparr>localStorage =
        [(''users'', ''[{"email":"a@x.com","password":"pw1","fund":4,"pet":null}]'')],
      console = []\<rparr>\<close>
  have g: "getUsers ?w = Inr (JArr [newUser ''a@x.com'' ''pw1''], ?w)"
    by code_simp
  have a: "accounts [newUser ''a@x.com'' ''pw1'']"
    by code_simp
  have n: "toLowerCase (trim '' A@X.com '') = ''a@x.com''"
    "toLowerCase (trim ''a@x.com'') = ''a@x.com''"
    by code_simp+
  have c: "email_of (newUser ''a@x.com'' ''pw1'') = Some ''a@x.com''"
    "password_of (newUser ''a@x.com'' ''pw1'') = Some ''pw1''"
    by code_simp+
  show ?thesis
    using g a handleLogin_iff [OF g a, of "'' A@X.com ''" "''pw1''"]
      handleLogin_iff [OF g a, of "''a@x.com''" "''wrong''"]
    by (simp add: n c setCurrentUserEmail_def setItem_def)
qed

section \<open>Sign-up\<close>

text \<open>
  C3. \<^verbatim>\<open>handleSignup\<close> checks, in this order: an empty field (the identifier after
  trimming), a confirmation that differs, an identifier already stored. Each failure
  leaves \<^verbatim>\<open>localStorage\<close> as it was. Otherwise one account with the fund 4 and no
  profile is appended to the stored array, the array is written back, and the session
  is the new identifier.
\<close>

theorem handleSignup_order:
  "(toLowerCase (trim identifier) = [] \<or> secret = [] \<or> confirmation = [] \<longrightarrow>
      handleSignup identifier secret confirmation w = (Shown FillAllFields, w))
   \<and> (toLowerCase (trim identifier) \<noteq> [] \<and> secret \<noteq> [] \<and> confirmation \<noteq> []
        \<and> secret \<noteq> confirmation \<longrightarrow>
      handleSignup identifier secret confirmation w = (Shown PasswordsDiffer, w))
   \<and> (toLowerCase (trim identifier) \<noteq> [] \<and> secret \<noteq> [] \<and> secret = confirmation
        \<and> getUsers w = Inr (JArr us, w1) \<and> list_all is_account us \<longrightarrow>
      localStorage w1 = localStorage w
      \<and> handleSignup identifier secret confirmation w =
          (if Some (toLowerCase (trim identifier)) \<in> set (map email_of us)
           then (Shown AccountExists, w1)
           else (Navigate ''dashboard.html'',
                 w1\<lparr>localStorage :=
                      AList.update ''currentUser'' (toLowerCase (trim identifier))
                        (AList.update ''users''
                           (JSON_stringify
                              (JArr (us @ [JObj [(''email'', JStr (toLowerCase (trim identifier))),
                                                 (''password'', JStr secret),
                                                 (''fund'', JNum 4), (''pet'', JNull)]])))
                           (localStorage w))\<rparr>)))"
proof (intro conjI impI)
  show "handleSignup identifier secret confirmation w = (Shown FillAllFields, w)"
    if "toLowerCase (trim identifier) = [] \<or> secret = [] \<or> confirmation = []"
    using that by (simp add: handleSignup_def Let_def)
  show "handleSignup identifier secret confirmation w = (Shown PasswordsDiffer, w)"
    if "toLowerCase (trim identifier) \<noteq> [] \<and> secret \<noteq> [] \<and> confirmation \<noteq> []
        \<and> secret \<noteq> confirmation"
    using that by (simp add: handleSignup_def Let_def)
next
  assume h: "toLowerCase (trim identifier) \<noteq> [] \<and> secret \<noteq> [] \<and> secret = confirmation
        \<and> getUsers w = Inr (JArr us, w1) \<and> list_all is_account us"
  then show "localStorage w1 = localStorage w"
    by (simp add: getUsers_storage)
  with h show "handleSignup identifier secret confirmation w =
          (if Some (toLowerCase (trim identifier)) \<in> set (map email_of us)
           then (Shown AccountExists, w1)
           else (Navigate ''dashboard.html'',
                 w1\<lparr>localStorage :=
                      AList.update ''currentUser'' (toLowerCase (trim identifier))
                        (AList.update ''users''
                           (JSON_stringify
                              (JArr (us @ [JObj [(''email'', JStr (toLowerCase (trim identifier))),
                                                 (''password'', JStr secret),
                                                 (''fund'', JNum 4), (''pet'', JNull)]])))
                           (localStorage w))\<rparr>))"
    by (auto simp: handleSignup_def Let_def Array_some_accounts setCurrentUserEmail_def
        setUsers_def setItem_def newUser_def)
qed

theorem handleSignup_order_witness:
  \<open>handleSignup ''   '' ''pw1'' ''pw1'' \<lparr>localStorage = [], console = []\<rparr>
     = (Shown FillAllFields, \<lparr>localStorage = [], console = []\<rparr>)
   \<and> handleSignup ''a@x.com'' ''pw1'' ''pw2'' \<lparr>localStorage = [], console = []\<rparr>
     = (Shown PasswordsDiffer, \<lparr>localStorage = [], console = []\<rparr>)
   \<and> handleSignup '' A@X.com '' ''pw1'' ''pw1'' \<lparr>localStorage = [], console = []\<rparr>
     = (Navigate ''dashboard.html'',
        \<lparr>localStorage =
           [(''users'', ''[{"email":"a@x.com","password":"pw1","fund":4,"pet":null}]''),
            (''currentUser'', ''a@x.com'')],
         console = []\<rparr>)
   \<and> handleSignup ''a@x.com'' ''pw2'' ''pw2''
        \<lparr>localStorage =
           [(''users'', ''[{"email":"a@x.com","password":"pw1","fund":4,"pet":null}]'')],
         console = []\<rparr>
     = (Shown AccountExists,
        \<lparr>localStorage =
           [(''users'', ''[{"email":"a@x.com","password":"pw1","fund":4,"pet":null}]'')],
         console = []\<rparr>)\<close>
proof -
  let ?w0 = "\<lparr>localStorage = [], console = []\<rparr>"
  let ?u = "JObj [(''email'', JStr ''a@x.com''), (''password'', JStr ''pw1''),
                  (''fund'', JNum 4), (''pet'', JNull)]"
  let ?w1 = \<open>\<lparr>localStorage =
           [(''users'', ''[{"email":"a@x.com","password":"pw1","fund":4,"pet":null}]'')],
         console = []\<rparr>\<close>
  have n: "toLowerCase (trim ''   '') = []" "toLowerCase (trim ''a@x.com'') = ''a@x.com''"
    "toLowerCase (trim '' A@X.com '') = ''a@x.com''"
    by code_simp+
  have g0: "getUsers ?w0 = Inr (JArr [], ?w0)"
    by code_simp
  have g1: "getUsers ?w1 = Inr (JArr [?u], ?w1)"
    by code_simp
  have a: "list_all is_account [?u]" "email_of ?u = Some ''a@x.com''"
    by code_simp+
  have s: \<open>JSON_stringify (JArr [?u]) = ''[{"email":"a@x.com","password":"pw1","fund":4,"pet":null}]''\<close>
    by code_simp
  have c1: "handleSignup ''   '' ''pw1'' ''pw1'' ?w0 = (Shown FillAllFields, ?w0)"
    using handleSignup_order [of "''   ''" "''pw1''" "''pw1''" ?w0] by (simp add: n)
  have c2: "handleSignup ''a@x.com'' ''pw1'' ''pw2'' ?w0 = (Shown PasswordsDiffer, ?w0)"
    using handleSignup_order [of "''a@x.com''" "''pw1''" "''pw2''" ?w0] by (simp add: n)
  have c3: "handleSignup '' A@X.com '' ''pw1'' ''pw1'' ?w0
      = (Navigate ''dashboard.html'',
         ?w0\<lparr>localStorage := AList.update ''currentUser'' ''a@x.com''
              (AList.update ''users'' (JSON_stringify (JArr [?u])) [])\<rparr>)"
    using handleSignup_order [of "'' A@X.com ''" "''pw1''" "''pw1''" ?w0 "[]" ?w0]
    by (simp add: n g0 del: JSON_stringify.simps)
  have c4: "handleSignup ''a@x.com'' ''pw2'' ''pw2'' ?w1 = (Shown AccountExists, ?w1)"
    using handleSignup_order [of "''a@x.com''" "''pw2''" "''pw2''" ?w1 "[?u]" ?w1]
    by (simp add: n g1 a del: JSON_stringify.simps)
  show ?thesis
    unfolding c1 c2 c3 c4 s by simp
qed

section \<open>Saving a profile: the reads\<close>

lemma settle_waiting:
  "pending sv \<noteq> {} \<Longrightarrow> settle sv w = (Waiting sv, w)"
  by (auto simp: settle_def pending_def list_all_length)


lemma length_fr_onload [simp]:
  "length (readerTasks (fr_onload i r sv)) = length (readerTasks sv)"
  by (simp add: fr_onload_def split: prod.splits target.splits)

lemma pending_fr_onload:
  "i < length (readerTasks sv) \<Longrightarrow> pending (fr_onload i r sv) = pending sv - {i}"
  by (auto simp: pending_def fr_onload_def nth_list_update split: prod.splits target.splits)

lemma events_stuck:
  assumes "i \<in> pending sv" and "i \<notin> fst ` set evs"
  shows "\<exists>sv'. events evs (Waiting sv, w) = (Waiting sv', w) \<and> i \<in> pending sv'"
  using assms
proof (induction evs arbitrary: sv)
  case Nil
  then show ?case by simp
next
  case (Cons ev evs)
  obtain j r where ev: "ev = (j, r)" by (cases ev)
  from Cons.prems have ij: "i \<noteq> j" and rest: "i \<notin> fst ` set evs"
    by (auto simp: ev)
  show ?case
  proof (cases "j \<in> pending sv")
    case True
    then have j: "j < length (readerTasks sv)" "\<not> snd (snd (readerTasks sv ! j))"
      by (simp_all add: pending_def)
    from Cons.prems(1) ij j(1) have i': "i \<in> pending (fr_onload j r sv)"
      by (simp add: pending_fr_onload)
    then have "settle (fr_onload j r sv) w = (Waiting (fr_onload j r sv), w)"
      by (intro settle_waiting) auto
    with j have "events (ev # evs) (Waiting sv, w) = events evs (Waiting (fr_onload j r sv), w)"
      by (simp add: ev onload_def)
    with Cons.IH [OF i' rest] show ?thesis by simp
  next
    case False
    then have "events (ev # evs) (Waiting sv, w) = events evs (Waiting sv, w)"
      by (auto simp: ev onload_def pending_def)
    with Cons.IH [OF Cons.prems(1) rest] show ?thesis by simp
  qed
qed




lemma user_fr_onload [simp]:
  "user (fr_onload j r sv) = user sv" "name (fr_onload j r sv) = name sv"
  "desc (fr_onload j r sv) = desc sv"
  by (auto simp: fr_onload_def split: prod.splits target.splits)



lemma events_Done [simp]: "events evs (Done out, w) = (Done out, w)"
  by (cases evs) auto


lemma savePetInfo_first:
  "savePetInfo usr pet_name pet_desc vet_files photo_files w =
     (if trim pet_name = [] \<or> trim pet_desc = [] then (Done (Shown NameAndDescription), w)
      else settle (first_save usr pet_name pet_desc vet_files photo_files) w)"
  by (simp add: savePetInfo_def)


lemma pending_first:
  "pending (first_save usr pet_name pet_desc vet_files photo_files)
     = {..< length (take 1 vet_files) + length photo_files}"
  by (cases vet_files) (auto simp: pending_def first_save_def nth_Cons')



text \<open>
  C7. If one of the reads that \<^verbatim>\<open>savePetInfo\<close> starts (the certificate, or any
  photo) never completes, then whatever other reads complete, in whatever order, the
  world is as it was, \<^verbatim>\<open>localStorage\<close> included, and no profile has been built and
  saved: the profile is built and stored only once every read has completed.
\<close>

theorem save_needs_every_read:
  assumes "i < length (take 1 vet_files) + length photo_files" and "i \<notin> fst ` set evs"
  shows "\<exists>r. events evs (savePetInfo usr pet_name pet_desc vet_files photo_files w) = (r, w)
           \<and> (\<forall>pet. r \<noteq> Done (Saved pet))"
proof (cases "trim pet_name = [] \<or> trim pet_desc = []")
  case True
  then show ?thesis by (simp add: savePetInfo_first)
next
  case False
  let ?sv = "first_save usr pet_name pet_desc vet_files photo_files"
  from assms(1) have i: "i \<in> pending ?sv" by (simp add: pending_first)
  then have "settle ?sv w = (Waiting ?sv, w)" by (intro settle_waiting) auto
  with False have "savePetInfo usr pet_name pet_desc vet_files photo_files w = (Waiting ?sv, w)"
    by (simp add: savePetInfo_first)
  with events_stuck [OF i assms(2), of w] show ?thesis by auto
qed

theorem save_needs_every_read_witness:
  \<open>(1::nat) < length (take 1 [''cert.pdf'']) + length [''a.png'', ''b.png'']
   \<and> (1::nat) \<notin> fst ` set [(2, ''data:B''), (0, ''data:C'')]
   \<and> snd (events [(2, ''data:B''), (0, ''data:C'')]
          (savePetInfo (newUser ''a@x.com'' ''pw1'') ''Rex'' ''A good dog'' [''cert.pdf'']
             [''a.png'', ''b.png'']
             \<lparr>localStorage =
                [(''users'', ''[{"email":"a@x.com","password":"pw1","fund":4,"pet":null}]'')],
              console = []\<rparr>))
       = \<lparr>localStorage =
            [(''users'', ''[{"email":"a@x.com","password":"pw1","fund":4,"pet":null}]'')],
          console = []\<rparr>\<close>
proof -
  have h1: "(1::nat) < length (take 1 [''cert.pdf'']) + length [''a.png'', ''b.png'']"
    by simp
  have h2: "(1::nat) \<notin> fst ` set [(2, ''data:B''), (0, ''data:C'')]"
    by simp
  show ?thesis
    using h1 h2 save_needs_every_read [OF h1 h2]
    by (metis snd_conv)
qed



section \<open>The listing of the profiles\<close>









section \<open>Saving a profile: the stored accounts\<close>

lemma email_of_account:
  "is_account u \<Longrightarrow> \<exists>ms e. u = JObj ms \<and> map_of ms ''email'' = Some (JStr e) \<and> email_of u = Some e"
  by (cases u) (auto simp: email_of_def elim!: is_str.elims)

lemma same_email_account:
  assumes "is_account u"
  shows "same_email usr u = Inl TypeError \<and> usr = JNull
     \<or> same_email usr u = Inr (email_of u = email_of usr) \<and> usr \<noteq> JNull"
proof -
  from email_of_account [OF assms] obtain ms e where
    u: "u = JObj ms" "map_of ms ''email'' = Some (JStr e)" "email_of u = Some e" by blast
  show ?thesis
  proof (cases usr)
    case (JObj us)
    show ?thesis
    proof (cases "map_of us ''email''")
      case None
      with JObj u show ?thesis by (simp add: same_email_def email_of_def)
    next
      case (Some x)
      with JObj u show ?thesis by (cases x) (auto simp: same_email_def email_of_def)
    qed
  qed (use u in \<open>auto simp: same_email_def email_of_def\<close>)
qed

lemma findIndex_accounts:
  assumes "list_all is_account us" and "Array_findIndex (same_email usr) us = Inr (Some i)"
  shows "i < length us \<and> (\<exists>e. email_of usr = Some e \<and> email_of (us ! i) = Some e
      \<and> (\<forall>j<i. email_of (us ! j) \<noteq> Some e))"
  using assms
proof (induction us arbitrary: i)
  case Nil
  then show ?case by simp
next
  case (Cons u us)
  from Cons.prems(1) have iu: "is_account u" and ius: "list_all is_account us" by simp_all
  from email_of_account [OF iu] obtain e where e: "email_of u = Some e" by blast
  from same_email_account [OF iu, of usr] Cons.prems(2)
  have se: "same_email usr u = Inr (email_of u = email_of usr)"
    by auto
  show ?case
  proof (cases "email_of u = email_of usr")
    case True
    with se Cons.prems(2) have "i = 0" by simp
    moreover from True e have "email_of usr = Some e" by simp
    ultimately show ?thesis using e by simp
  next
    case False
    with se Cons.prems(2) obtain i' where i': "Array_findIndex (same_email usr) us = Inr (Some i')" "i = Suc i'"
      by (auto split: sum.splits option.splits)
    from Cons.IH [OF ius i'(1)] False i'(2) show ?thesis
      by (auto simp: nth_Cons' less_Suc_eq_0_disj)
  qed
qed

lemma set_update_subset: "set (AList.update k v ms) \<subseteq> insert (k, v) (set ms)"
  by (induction ms) auto

lemma canonical_update:
  "canonical (JObj ms) \<Longrightarrow> canonical v \<Longrightarrow> canonical (JObj (AList.update k v ms))"
  using set_update_subset [of k v ms]
  by (auto simp: distinct_update list_all_iff)



lemma getUsers_setUsers:
  assumes "canonical users"
  shows "getUsers (setUsers users w) = Inr (users, setUsers users w)"
proof -
  have "JSON_stringify users \<noteq> []"
    using stringify_head [of users] by auto
  then show ?thesis
    using JSON_parse_stringify [OF assms]
    by (simp add: getUsers_def setUsers_def setItem_def getItem_def update_conv' Let_def
        del: JSON_stringify.simps)
qed

lemma then_callback_accounts:
  assumes g: "getUsers w = Inr (JArr us, w1)" and acc: "list_all is_account us"
    and saved: "then_callback sv w = (Saved pet, w')"
  shows "\<exists>i e ms. i < length us \<and> us ! i = JObj ms \<and> email_of (user sv) = Some e
      \<and> email_of (us ! i) = Some e
      \<and> (\<forall>j<i. email_of (us ! j) \<noteq> Some e)
      \<and> pet = petObj sv
      \<and> w' = setUsers (JArr (us[i := JObj (AList.update ''pet'' (petObj sv) ms)])) w1"
proof -
  from saved g have tc:
    "(case Array_findIndex (same_email (user sv)) us of
        Inl e \<Rightarrow> (Uncaught e, w1)
      | Inr idx \<Rightarrow>
          (case set_prop ''pet'' (petObj sv) (nth_opt us idx) of
             Inl e \<Rightarrow> (Uncaught e, w1)
           | Inr u \<Rightarrow> (Saved (petObj sv), setUsers (JArr (us[the idx := u])) w1)))
     = (Saved pet, w')"
    by (simp add: then_callback_def)
  then obtain idx where fi: "Array_findIndex (same_email (user sv)) us = Inr idx"
    by (cases "Array_findIndex (same_email (user sv)) us") auto
  with tc obtain u where sp: "set_prop ''pet'' (petObj sv) (nth_opt us idx) = Inr u"
    by (cases "set_prop ''pet'' (petObj sv) (nth_opt us idx)") auto
  from tc fi sp have w': "w' = setUsers (JArr (us[the idx := u])) w1" and pet: "pet = petObj sv"
    by simp_all
  from sp obtain i where idx: "idx = Some i" "i < length us"
    by (cases idx) (auto simp: nth_opt_def split: if_splits)
  from findIndex_accounts [OF acc fi [unfolded idx(1)]] obtain e where
    e: "email_of (user sv) = Some e" "email_of (us ! i) = Some e"
       "\<forall>j<i. email_of (us ! j) \<noteq> Some e"
    by blast
  from acc idx(2) have "is_account (us ! i)" by (simp add: list_all_length)
  then obtain ms where ms: "us ! i = JObj ms" by (cases "us ! i") auto
  with sp idx have "u = JObj (AList.update ''pet'' (petObj sv) ms)"
    by (simp add: nth_opt_def)
  with idx e ms w' pet show ?thesis by auto
qed


lemma canonical_list_update:
  "list_all canonical us \<Longrightarrow> canonical u \<Longrightarrow> list_all canonical (us[i := u])"
  by (auto simp: list_all_iff dest!: set_update_subset_insert [THEN subsetD])


lemma getItem_setUsers: "k \<noteq> ''users'' \<Longrightarrow> getItem k (setUsers users w) = getItem k w"
  by (simp add: getItem_def setUsers_def setItem_def update_conv' del: JSON_stringify.simps)

lemma getItem_getUsers: "getUsers w = Inr (v, w1) \<Longrightarrow> getItem k w1 = getItem k w"
  by (simp add: getItem_def getUsers_storage)

lemma field_update:
  "k \<noteq> k' \<Longrightarrow> field (JObj (AList.update k' v ms)) k = field (JObj ms) k"
  by (simp add: update_conv')

lemma example_facts:
  "getUsers stored = Inr (JArr [alice, bob], stored)"
  "list_all is_account [alice, bob]" "list_all canonical [alice, bob]"
  "canonical (petObj new_save)" "is_pet (petObj new_save)"
  "fst (then_callback new_save stored) = Saved (petObj new_save)"
  by code_simp+



lemma length_loads [simp]: "length (readerTasks (loads evs sv)) = length (readerTasks sv)"
  by (induction evs arbitrary: sv) auto

lemma fields_loads [simp]:
  "user (loads evs sv) = user sv" "name (loads evs sv) = name sv" "desc (loads evs sv) = desc sv"
  by (induction evs arbitrary: sv) auto













text \<open>
  C6. A successful save over stored accounts changes nothing but the profile of the
  account it is for: the array read back has the same length, every other account is
  the same, every member of the target but \<^verbatim>\<open>pet\<close> is the same (identifier, secret
  and fund among them), and so is every other key of \<^verbatim>\<open>localStorage\<close>.
\<close>

theorem save_changes_only_the_profile:
  assumes "getUsers w = Inr (JArr us, w1)" and "list_all is_account us"
    and "list_all canonical us" and "canonical (petObj sv)"
    and "then_callback sv w = (Saved pet, w')"
  shows "\<exists>us' i. getUsers w' = Inr (JArr us', w') \<and> length us' = length us \<and> i < length us
     \<and> email_of (us ! i) = email_of (user sv)
     \<and> (\<forall>j<length us. j \<noteq> i \<longrightarrow> us' ! j = us ! j)
     \<and> (\<forall>k. k \<noteq> ''pet'' \<longrightarrow> field (us' ! i) k = field (us ! i) k)
     \<and> (\<forall>k. k \<noteq> ''users'' \<longrightarrow> getItem k w' = getItem k w)"
proof -
  from then_callback_accounts [OF assms(1,2,5)] obtain i e ms where
    i: "i < length us" "us ! i = JObj ms" "email_of (user sv) = Some e" "email_of (us ! i) = Some e"
    and w': "w' = setUsers (JArr (us[i := JObj (AList.update ''pet'' (petObj sv) ms)])) w1"
    by blast
  let ?us' = "us[i := JObj (AList.update ''pet'' (petObj sv) ms)]"
  from assms(3) i(1,2) have "canonical (JObj ms)"
    by (metis list_all_length)
  then have "canonical (JObj (AList.update ''pet'' (petObj sv) ms))"
    using assms(4) by (rule canonical_update)
  with assms(3) have "canonical (JArr ?us')"
    by (simp add: canonical_list_update)
  then have g: "getUsers w' = Inr (JArr ?us', w')"
    unfolding w' by (rule getUsers_setUsers)
  have other: "\<forall>k. k \<noteq> ''users'' \<longrightarrow> getItem k w' = getItem k w"
    using assms(1) by (simp add: w' getItem_setUsers getItem_getUsers)
  have fld: "\<forall>k. k \<noteq> ''pet'' \<longrightarrow> field (?us' ! i) k = field (us ! i) k"
    using i(1,2) by (simp add: update_conv')
  from g i other fld show ?thesis
    by (intro exI [of _ ?us'] exI [of _ i]) simp
qed

theorem save_changes_only_the_profile_witness:
  "getUsers stored = Inr (JArr [alice, bob], stored)
   \<and> list_all is_account [alice, bob] \<and> list_all canonical [alice, bob]
   \<and> canonical (petObj new_save)
   \<and> fst (then_callback new_save stored) = Saved (petObj new_save)
   \<and> (\<exists>us'. getUsers (snd (then_callback new_save stored))
             = Inr (JArr us', snd (then_callback new_save stored))
          \<and> length us' = 2 \<and> us' ! 1 = bob
          \<and> field (us' ! 0) ''email'' = Some (JStr ''a@x.com'')
          \<and> field (us' ! 0) ''password'' = Some (JStr ''pw1'')
          \<and> field (us' ! 0) ''fund'' = Some (JNum 4))
   \<and> getItem ''currentUser'' (snd (then_callback new_save stored)) = Some ''a@x.com''"
proof -
  let ?w' = "snd (then_callback new_save stored)"
  have tc: "then_callback new_save stored = (Saved (petObj new_save), ?w')"
    using example_facts(6) by (simp add: prod_eq_iff)
  have e: "email_of (user new_save) = Some ''a@x.com''" "email_of ([alice, bob] ! 0) = Some ''a@x.com''"
    "email_of ([alice, bob] ! 1) = Some ''b@x.com''"
    by code_simp+
  have f: "field alice ''email'' = Some (JStr ''a@x.com'')" "field alice ''password'' = Some (JStr ''pw1'')"
    "field alice ''fund'' = Some (JNum 4)" "getItem ''currentUser'' stored = Some ''a@x.com''"
    by code_simp+
  from save_changes_only_the_profile [OF example_facts(1-4) tc] obtain us' i where
    r: "getUsers ?w' = Inr (JArr us', ?w')" "length us' = length [alice, bob]" "i < length [alice, bob]"
      "email_of ([alice, bob] ! i) = email_of (user new_save)"
      "\<forall>j<length [alice, bob]. j \<noteq> i \<longrightarrow> us' ! j = [alice, bob] ! j"
      "\<forall>k. k \<noteq> ''pet'' \<longrightarrow> field (us' ! i) k = field ([alice, bob] ! i) k"
      "\<forall>k. k \<noteq> ''users'' \<longrightarrow> getItem k ?w' = getItem k stored"
    by blast
  from r(3,4) e have i: "i = 0"
    by (cases i) (auto simp: less_Suc_eq)
  from r(5) i have "us' ! 1 = bob" by simp
  moreover from r(6) i f have "field (us' ! 0) ''email'' = Some (JStr ''a@x.com'')"
    "field (us' ! 0) ''password'' = Some (JStr ''pw1'')" "field (us' ! 0) ''fund'' = Some (JNum 4)"
    by simp_all
  moreover from r(7) f(4) have "getItem ''currentUser'' ?w' = Some ''a@x.com''" by simp
  ultimately show ?thesis
    using example_facts r(1,2) by auto
qed

section \<open>Trimming and lower-casing\<close>

lemma lower_lower [simp]: "lower (lower c) = lower c"
  by (simp add: lower_def)

lemma toLowerCase_idem [simp]: "toLowerCase (toLowerCase s) = toLowerCase s"
  by (simp add: toLowerCase_def)














section \<open>The stored collection in every reachable world\<close>




























end
